theory Spec2Isabelle
  imports Complex_Main
begin

section \<open>The random source\<close>

text \<open>
  The program draws from Python's global \<^verbatim>\<open>random\<close> module. The source of randomness is
  made explicit as an infinite tape of raw draws that every call consumes from the front
  and hands on: \<^verbatim>\<open>random.random()\<close> yields a 53-bit fraction in [0, 1),
  \<^verbatim>\<open>random.randint(a, b)\<close> (called with \<open>a \<le> b\<close> only) yields an integer of [a, b].
  Every result the library can return is the result of some tape.
\<close>

type_synonym random_source = "nat \<Rightarrow> nat"

definition advance :: "random_source \<Rightarrow> random_source" where
  "advance rs = (\<lambda>k. rs (Suc k))"

definition random_random :: "random_source \<Rightarrow> real \<times> random_source" where
  "random_random rs = (real (rs 0 mod 2 ^ 53) / 2 ^ 53, advance rs)"

definition randint :: "int \<Rightarrow> int \<Rightarrow> random_source \<Rightarrow> int \<times> random_source" where
  "randint a b rs = (a + int (rs 0) mod (b - a + 1), advance rs)"

section \<open>IChingCaster\<close>

subsection \<open>cast_coins\<close>

text \<open>\<^verbatim>\<open>[3 if random.random() > 0.5 else 2 for _ in range(k)]\<close>\<close>

fun coin_values :: "nat \<Rightarrow> random_source \<Rightarrow> int list \<times> random_source" where
  "coin_values 0 rs = ([], rs)"
| "coin_values (Suc k) rs =
     (let (x, rs1) = random_random rs;
          (xs, rs2) = coin_values k rs1
      in ((if x > 0.5 then 3 else 2) # xs, rs2))"

text \<open>The total of one line: \<^verbatim>\<open>sum([... for _ in range(3)])\<close>.\<close>

definition coin_total :: "random_source \<Rightarrow> int \<times> random_source" where
  "coin_total rs = (let (xs, rs') = coin_values 3 rs in (sum_list xs, rs'))"

text \<open>
  The branch on the total (\<open>tot\<close>). The chain of \<^verbatim>\<open>if\<close>/\<^verbatim>\<open>elif\<close> has no \<^verbatim>\<open>else\<close>: any other total
  appends nothing.
\<close>

definition coin_branch :: "int \<Rightarrow> int \<Rightarrow> int list \<times> int list \<Rightarrow> int list \<times> int list" where
  "coin_branch line_num tot st =
     (let (hexagram_lines, changing_lines) = st in
      if tot = 6 then (hexagram_lines @ [0], changing_lines @ [line_num + 1])
      else if tot = 7 then (hexagram_lines @ [1], changing_lines)
      else if tot = 8 then (hexagram_lines @ [0], changing_lines)
      else if tot = 9 then (hexagram_lines @ [1], changing_lines @ [line_num + 1])
      else (hexagram_lines, changing_lines))"

text \<open>One pass of the body of \<^verbatim>\<open>for line_num in range(6)\<close>.\<close>

definition coin_line ::
  "int \<Rightarrow> (int list \<times> int list) \<times> random_source \<Rightarrow> (int list \<times> int list) \<times> random_source" where
  "coin_line line_num s =
     (let (st, rs) = s; (tot, rs') = coin_total rs
      in (coin_branch line_num tot st, rs'))"

definition cast_coins :: "random_source \<Rightarrow> (int list \<times> int list) \<times> random_source" where
  "cast_coins rs =
     (let ((hexagram_lines, changing_lines), rs') =
            fold coin_line [0, 1, 2, 3, 4, 5] (([], []), rs)
      in ((rev hexagram_lines, changing_lines), rs'))"

text \<open>The totals of the six lines in casting order, read off the same loop.\<close>

fun coin_totals :: "nat \<Rightarrow> random_source \<Rightarrow> int list" where
  "coin_totals 0 rs = []"
| "coin_totals (Suc k) rs = (let (tot, rs') = coin_total rs in tot # coin_totals k rs')"

subsection \<open>cast_yarrow_stalks\<close>

record division_state =
  stalks :: int
  line_value :: int
  remainder :: int
  source :: random_source

text \<open>
  One pass of the body of \<^verbatim>\<open>for division in range(3)\<close>. The field \<open>remainder\<close> holds the
  local variable of that name, which the loop leaves set to the sum of the last division.
\<close>

definition yarrow_division :: "int \<Rightarrow> division_state \<Rightarrow> division_state" where
  "yarrow_division division s =
     (let stalks1 = stalks s - 1;
          (group1, rs') = (if stalks1 > 1 then randint 1 (stalks1 - 1) (source s)
                           else (1, source s));
          group2 = stalks1 - group1;
          remainder1 = (if group1 mod 4 = 0 then 4 else group1 mod 4);
          remainder2 = (if group2 mod 4 = 0 then 4 else group2 mod 4);
          rem = remainder1 + remainder2
      in \<lparr> stalks = stalks1 - rem,
           line_value = (if division = 2
                         then of_bool (rem = 4) * 2 + of_bool (rem = 8) * 3
                         else line_value s),
           remainder = rem,
           source = rs' \<rparr>)"

text \<open>
  The three divisions of one line, from 50 stalks and a line value of 0. The variable
  \<^verbatim>\<open>remainder\<close> is unbound before the first division; it starts here at 0 and is
  overwritten before it is read.
\<close>

definition yarrow_divisions :: "random_source \<Rightarrow> division_state" where
  "yarrow_divisions rs =
     fold yarrow_division [0, 1, 2]
       \<lparr> stalks = 50, line_value = 0, remainder = 0, source = rs \<rparr>"

definition yarrow_branch :: "int \<Rightarrow> int \<Rightarrow> int list \<times> int list \<Rightarrow> int list \<times> int list" where
  "yarrow_branch line_position v st =
     (let (hexagram_lines, changing_lines) = st in
      if v = 6 then (hexagram_lines @ [0], changing_lines @ [6 - line_position])
      else if v = 7 then (hexagram_lines @ [1], changing_lines)
      else if v = 8 then (hexagram_lines @ [0], changing_lines)
      else if v = 9 then (hexagram_lines @ [1], changing_lines @ [6 - line_position])
      else (hexagram_lines, changing_lines))"

definition yarrow_line ::
  "int \<Rightarrow> (int list \<times> int list) \<times> random_source \<Rightarrow> (int list \<times> int list) \<times> random_source" where
  "yarrow_line line_position s =
     (let (st, rs) = s; d = yarrow_divisions rs
      in (yarrow_branch line_position (line_value d) st, source d))"

definition cast_yarrow_stalks :: "random_source \<Rightarrow> (int list \<times> int list) \<times> random_source" where
  "cast_yarrow_stalks rs =
     (let ((hexagram_lines, changing_lines), rs') =
            fold yarrow_line [0, 1, 2, 3, 4, 5] (([], []), rs)
      in ((rev hexagram_lines,
           (if changing_lines \<noteq> [] then map (\<lambda>line. 7 - line) changing_lines else [])),
          rs'))"

text \<open>The state after the three divisions of each of the six lines, in casting order.\<close>

fun yarrow_trace :: "nat \<Rightarrow> random_source \<Rightarrow> division_state list" where
  "yarrow_trace 0 rs = []"
| "yarrow_trace (Suc k) rs = (let d = yarrow_divisions rs in d # yarrow_trace k (source d))"

subsection \<open>get_trigram_symbols\<close>

text \<open>
  The one-character strings the method returns: the eight trigram glyphs U+2630 to U+2637,
  named as \<^verbatim>\<open>get_trigram_name\<close> names them, and the sentinel \<^verbatim>\<open>"?"\<close>.
\<close>

datatype symbol = Heaven | Lake | Fire | Thunder | Wind | Water | Mountain | Earth | Unknown

definition trigrams :: "string \<rightharpoonup> symbol" where
  "trigrams = map_of
     [(''111'', Heaven), (''110'', Lake), (''101'', Fire), (''100'', Thunder),
      (''011'', Wind), (''010'', Water), (''001'', Mountain), (''000'', Earth)]"

text \<open>\<^verbatim>\<open>d.get(key, default)\<close>\<close>

definition dict_get :: "('k \<rightharpoonup> 'v) \<Rightarrow> 'k \<Rightarrow> 'v \<Rightarrow> 'v" where
  "dict_get d k dflt = (case d k of Some v \<Rightarrow> v | None \<Rightarrow> dflt)"

text \<open>The result is the pair \<^verbatim>\<open>(lower_symbol, upper_symbol)\<close>.\<close>

definition get_trigram_symbols :: "string \<Rightarrow> symbol \<times> symbol" where
  "get_trigram_symbols binary_str =
     (if length binary_str = 6
      then (let lower_trigram = drop 3 binary_str;
                upper_trigram = take 3 binary_str;
                lower_symbol = dict_get trigrams lower_trigram Unknown;
                upper_symbol = dict_get trigrams upper_trigram Unknown
            in (lower_symbol, upper_symbol))
      else (Unknown, Unknown))"

section \<open>QuadrupleGoddessSystem.cast_iching_traditional\<close>

text \<open>\<^verbatim>\<open>[random.randint(0, 1) for _ in range(k)]\<close>\<close>

fun random_bits :: "nat \<Rightarrow> random_source \<Rightarrow> int list \<times> random_source" where
  "random_bits 0 rs = ([], rs)"
| "random_bits (Suc k) rs =
     (let (x, rs1) = randint 0 1 rs;
          (xs, rs2) = random_bits k rs1
      in (x # xs, rs2))"

text \<open>\<^verbatim>\<open>''.join(['1' if x == 1 else '0' for x in lines])\<close>\<close>

definition to_binary :: "int list \<Rightarrow> string" where
  "to_binary lines = map (\<lambda>x. if x = 1 then CHR ''1'' else CHR ''0'') lines"

text \<open>
  One pass of \<^verbatim>\<open>for line_num in changing_lines\<close>: the line at index \<open>6 - line_num\<close> is
  flipped when that index is inside the list.
\<close>

definition flip_line :: "int \<Rightarrow> int list \<Rightarrow> int list" where
  "flip_line line_num secondary_lines =
     (let idx = 6 - line_num in
      if 0 \<le> idx \<and> idx < int (length secondary_lines)
      then secondary_lines[nat idx := (if secondary_lines ! nat idx = 0 then 1 else 0)]
      else secondary_lines)"

definition secondary_lines_of :: "int list \<Rightarrow> int list \<Rightarrow> int list" where
  "secondary_lines_of hexagram_lines changing_lines = fold flip_line changing_lines hexagram_lines"

text \<open>
  The table \<^verbatim>\<open>self.iching_hexagrams["hexagrams"]\<close> is loaded data. An entry of the result
  is a record of that table or one of the two literal defaults of the method.
\<close>

datatype 'd hexagram_entry = Entry 'd | Unknown_Primary | Unknown_Secondary

record 'd iching_result =
  binary :: string
  lines :: "int list"
  changing_lines :: "int list"
  primary :: "'d hexagram_entry"
  trigram_symbols :: "symbol \<times> symbol"
  secondary_binary :: "string option"
  secondary :: "'d hexagram_entry option"
  secondary_trigram_symbols :: "(symbol \<times> symbol) option"

text \<open>
  The part of the method after the casting: padding, the binary key, the trigrams and the
  secondary hexagram. The pairs of symbols are (lower, upper). \<open>secondary_binary\<close> is the
  local variable of that name, absent when there are no changing lines.
\<close>

definition build_result ::
  "(string \<rightharpoonup> 'd) \<Rightarrow> int list \<Rightarrow> int list \<Rightarrow> random_source \<Rightarrow> 'd iching_result \<times> random_source" where
  "build_result hexagrams hexagram_lines0 changing rs =
     (let (hexagram_lines, rs') =
            (if length hexagram_lines0 < 6
             then (let (bits, rs1) = random_bits (6 - length hexagram_lines0) rs
                   in (hexagram_lines0 @ bits, rs1))
             else (hexagram_lines0, rs));
          hexagram_binary = to_binary hexagram_lines;
          hexagram_data = dict_get (map_option Entry \<circ> hexagrams) hexagram_binary Unknown_Primary;
          secondary_lines = secondary_lines_of hexagram_lines changing;
          sec_binary = to_binary secondary_lines
      in (\<lparr> binary = hexagram_binary,
            lines = hexagram_lines,
            changing_lines = changing,
            primary = hexagram_data,
            trigram_symbols = get_trigram_symbols hexagram_binary,
            secondary_binary = (if changing \<noteq> [] then Some sec_binary else None),
            secondary =
              (if changing \<noteq> []
               then Some (dict_get (map_option Entry \<circ> hexagrams) sec_binary Unknown_Secondary)
               else None),
            secondary_trigram_symbols =
              (if changing \<noteq> [] then Some (get_trigram_symbols sec_binary) else None) \<rparr>,
          rs'))"

definition cast_iching_traditional ::
  "(string \<rightharpoonup> 'd) \<Rightarrow> string \<Rightarrow> random_source \<Rightarrow> 'd iching_result \<times> random_source" where
  "cast_iching_traditional hexagrams method rs =
     (let ((hexagram_lines, changing), rs1) =
            (if method = ''coins'' then cast_coins rs
             else if method = ''yarrow'' then cast_yarrow_stalks rs
             else (let (bits, rs') = random_bits 6 rs in ((bits, []), rs')))
      in build_result hexagrams hexagram_lines changing rs1)"

section \<open>MagicSquareGenerator\<close>

definition generate_saturn_square :: "int list list" where
  "generate_saturn_square =
     [[4, 9, 2],
      [3, 5, 7],
      [8, 1, 6]]"

definition generate_jupiter_square :: "int list list" where
  "generate_jupiter_square =
     [[4, 14, 15, 1],
      [9, 7, 6, 12],
      [5, 11, 10, 8],
      [16, 2, 3, 13]]"

definition generate_mars_square :: "int list list" where
  "generate_mars_square =
     [[11, 24, 7, 20, 3],
      [4, 12, 25, 8, 16],
      [17, 5, 13, 21, 9],
      [10, 18, 1, 14, 22],
      [23, 6, 19, 2, 15]]"

definition generate_sun_square :: "int list list" where
  "generate_sun_square =
     [[6, 32, 3, 34, 35, 1],
      [7, 11, 27, 28, 8, 30],
      [19, 14, 16, 15, 23, 24],
      [18, 20, 22, 21, 17, 13],
      [25, 29, 10, 9, 26, 12],
      [36, 5, 33, 4, 2, 31]]"

definition generate_venus_square :: "int list list" where
  "generate_venus_square =
     [[22, 47, 16, 41, 10, 35, 4],
      [5, 23, 48, 17, 42, 11, 29],
      [30, 6, 24, 49, 18, 36, 12],
      [13, 31, 7, 25, 43, 19, 37],
      [38, 14, 32, 1, 26, 44, 20],
      [21, 39, 8, 33, 2, 27, 45],
      [46, 15, 40, 9, 34, 3, 28]]"

definition generate_mercury_square :: "int list list" where
  "generate_mercury_square =
     [[8, 58, 59, 5, 4, 62, 63, 1],
      [49, 15, 14, 52, 53, 11, 10, 56],
      [41, 23, 22, 44, 45, 19, 18, 48],
      [32, 34, 35, 29, 28, 38, 39, 25],
      [40, 26, 27, 37, 36, 30, 31, 33],
      [17, 47, 46, 20, 21, 43, 42, 24],
      [9, 55, 54, 12, 13, 51, 50, 16],
      [64, 2, 3, 61, 60, 6, 7, 57]]"

definition generate_moon_square :: "int list list" where
  "generate_moon_square =
     [[37, 78, 29, 70, 21, 62, 13, 54, 5],
      [6, 38, 79, 30, 71, 22, 63, 14, 46],
      [47, 7, 39, 80, 31, 72, 23, 55, 15],
      [16, 48, 8, 40, 81, 32, 64, 24, 56],
      [57, 17, 49, 9, 41, 73, 33, 65, 25],
      [26, 58, 18, 50, 1, 42, 74, 34, 66],
      [67, 27, 59, 10, 51, 2, 43, 75, 35],
      [36, 68, 19, 60, 11, 52, 3, 44, 76],
      [77, 28, 69, 20, 61, 12, 53, 4, 45]]"

definition planet_squares :: "string \<rightharpoonup> int \<times> int list list" where
  "planet_squares = map_of
     [(''Saturn'', (3, generate_saturn_square)),
      (''Jupiter'', (4, generate_jupiter_square)),
      (''Mars'', (5, generate_mars_square)),
      (''Sun'', (6, generate_sun_square)),
      (''Venus'', (7, generate_venus_square)),
      (''Mercury'', (8, generate_mercury_square)),
      (''Moon'', (9, generate_moon_square))]"

text \<open>
  The result is the pair \<^verbatim>\<open>(square, size)\<close>. The parameter \<^verbatim>\<open>size\<close> of the method is
  never read: it is overwritten or ignored, and is left out.
\<close>

definition get_square_by_planet :: "string \<Rightarrow> int list list \<times> int" where
  "get_square_by_planet planet_name =
     (case planet_squares planet_name of
        Some (sz, generator) \<Rightarrow> (generator, sz)
      | None \<Rightarrow> (generate_saturn_square, 3))"

section \<open>QuadrupleGoddessSystem.generate_custom_square\<close>

text \<open>
  The state of the loop of the Siamese branch: the square and the current cell.
  \<open>mod\<close> on \<open>int\<close> is Python's \<^verbatim>\<open>%\<close> for a positive modulus.
\<close>

definition siamese_step :: "int \<Rightarrow> int \<Rightarrow> int list list \<times> int \<times> int \<Rightarrow> int list list \<times> int \<times> int" where
  "siamese_step sz num s =
     (let (square, i, j) = s;
          square' = square[nat i := (square ! nat i)[nat j := num]];
          new_i = (i - 1) mod sz;
          new_j = (j + 1) mod sz
      in if square' ! nat new_i ! nat new_j \<noteq> 0
         then (square', (i + 1) mod sz, j)
         else (square', new_i, new_j))"

text \<open>The even branch: one pass of the inner loop and one of the outer loop.\<close>

definition fill_cell :: "nat \<Rightarrow> nat \<Rightarrow> int list list \<times> int \<Rightarrow> int list list \<times> int" where
  "fill_cell i j s = (let (square, num) = s in (square[i := (square ! i)[j := num]], num + 1))"

definition fill_row :: "nat \<Rightarrow> nat \<Rightarrow> int list list \<times> int \<Rightarrow> int list list \<times> int" where
  "fill_row sz i s = fold (fill_cell i) [0..<sz] s"

text \<open>
  \<open>sz\<close> (the parameter \<^verbatim>\<open>size\<close>) is a natural number: the method is called with the sizes 3 to 9 of the menu.
  \<^verbatim>\<open>range(1, size*size + 1)\<close> is \<open>[1..int (sz * sz)]\<close>.
\<close>

definition generate_custom_square :: "nat \<Rightarrow> int list list" where
  "generate_custom_square sz =
     (let square = replicate sz (replicate sz 0) in
      if sz mod 2 = 1
      then fst (fold (siamese_step (int sz)) [1..int (sz * sz)]
                  (square, 0, int sz div 2))
      else fst (fold (fill_row sz) [0..<sz] (square, 1)))"

section \<open>Magic squares\<close>

definition magic_constant :: "nat \<Rightarrow> int" where
  "magic_constant n = int n * (int n * int n + 1) div 2"

definition column :: "int list list \<Rightarrow> nat \<Rightarrow> int list" where
  "column sq j = map (\<lambda>row. row ! j) sq"

definition main_diagonal :: "nat \<Rightarrow> int list list \<Rightarrow> int list" where
  "main_diagonal n sq = map (\<lambda>i. sq ! i ! i) [0..<n]"

definition anti_diagonal :: "nat \<Rightarrow> int list list \<Rightarrow> int list" where
  "anti_diagonal n sq = map (\<lambda>i. sq ! i ! (n - 1 - i)) [0..<n]"

text \<open>An \<open>n \<times> n\<close> matrix that holds each of \<open>1..n\<^sup>2\<close> exactly once.\<close>

definition is_square_of :: "nat \<Rightarrow> int list list \<Rightarrow> bool" where
  "is_square_of n sq \<longleftrightarrow>
     length sq = n \<and> list_all (\<lambda>row. length row = n) sq \<and>
     sort (concat sq) = [1..int (n * n)]"

text \<open>Every row, every column and both main diagonals sum to the magic constant.\<close>

definition all_sums_magic :: "nat \<Rightarrow> int list list \<Rightarrow> bool" where
  "all_sums_magic n sq \<longleftrightarrow>
     list_all (\<lambda>row. sum_list row = magic_constant n) sq \<and>
     list_all (\<lambda>j. sum_list (column sq j) = magic_constant n) [0..<n] \<and>
     sum_list (main_diagonal n sq) = magic_constant n \<and>
     sum_list (anti_diagonal n sq) = magic_constant n"

definition is_magic_square :: "nat \<Rightarrow> int list list \<Rightarrow> bool" where
  "is_magic_square n sq \<longleftrightarrow> is_square_of n sq \<and> all_sums_magic n sq"

section \<open>Auxiliary notions for the statements\<close>

text \<open>The line and the changing-line numbers that the coin method derives from its totals.\<close>

definition line_of_total :: "int \<Rightarrow> int" where
  "line_of_total t = (if t = 7 \<or> t = 9 then 1 else 0)"

definition changing_of_totals :: "int list \<Rightarrow> int list \<Rightarrow> int list" where
  "changing_of_totals ks ts =
     map (\<lambda>(k, t). k + 1) (filter (\<lambda>(k, t). t = 6 \<or> t = 9) (zip ks ts))"

text \<open>The \<open>k\<close>-th draw of the source, taken as a coin, is heads: it contributes 3.\<close>

definition heads :: "random_source \<Rightarrow> nat \<Rightarrow> bool" where
  "heads rs k \<longleftrightarrow> fst (random_random ((advance ^^ k) rs)) > 0.5"

text \<open>The remainder of a group of stalks modulo 4, with 0 counted as 4.\<close>

definition rem4 :: "int \<Rightarrow> int" where
  "rem4 g = (if g mod 4 = 0 then 4 else g mod 4)"

text \<open>
  Lines that are all 0 or 1, and the hexagram \<open>h\<close> with the line at index \<open>6 - n\<close>
  flipped for each \<open>n\<close> of \<open>c\<close>.
\<close>

definition binary_lines :: "int list \<Rightarrow> bool" where
  "binary_lines xs \<longleftrightarrow> list_all (\<lambda>x. x = 0 \<or> x = 1) xs"

definition flipped :: "int list \<Rightarrow> int list \<Rightarrow> int list" where
  "flipped h c = map (\<lambda>i. if 6 - int i \<in> set c then 1 - h ! i else h ! i) [0..<length h]"

text \<open>
  The closed form of the Siamese method on a square of order \<open>n\<close>: the rank (from 0)
  of the number that ends in cell \<open>(a, b)\<close>, and the row and the column of the cell that
  receives the number of rank \<open>k\<close>.
\<close>

definition siamese_index :: "int \<Rightarrow> int \<Rightarrow> int \<Rightarrow> int" where
  "siamese_index n a b = ((a + b - n div 2) mod n) * n + (2 * ((a + b - n div 2) mod n) - a) mod n"

definition siamese_row :: "int \<Rightarrow> int \<Rightarrow> int" where
  "siamese_row n k = (2 * (k div n) - k mod n) mod n"

definition siamese_col :: "int \<Rightarrow> int \<Rightarrow> int" where
  "siamese_col n k = (n div 2 - k div n + k mod n) mod n"

text \<open>
  The square after the first \<open>k\<close> numbers have been placed, and the finished square.
\<close>

definition siamese_cell :: "nat \<Rightarrow> int \<Rightarrow> nat \<Rightarrow> nat \<Rightarrow> int" where
  "siamese_cell n k a b =
     (if siamese_index (int n) (int a) (int b) < k
      then siamese_index (int n) (int a) (int b) + 1 else 0)"

definition partial_square :: "nat \<Rightarrow> int \<Rightarrow> int list list" where
  "partial_square n k = map (\<lambda>a. map (\<lambda>b. siamese_cell n k a b) [0..<n]) [0..<n]"

definition siamese_square :: "nat \<Rightarrow> int list list" where
  "siamese_square n =
     map (\<lambda>a. map (\<lambda>b. siamese_index (int n) (int a) (int b) + 1) [0..<n]) [0..<n]"

section \<open>Trigrams\<close>

lemma trigrams_table:
  "trigrams ''111'' = Some Heaven" "trigrams ''110'' = Some Lake"
  "trigrams ''101'' = Some Fire" "trigrams ''100'' = Some Thunder"
  "trigrams ''011'' = Some Wind" "trigrams ''010'' = Some Water"
  "trigrams ''001'' = Some Mountain" "trigrams ''000'' = Some Earth"
  by (simp_all add: trigrams_def)

lemma three_bits_cases:
  assumes "length t = 3" and "set t \<subseteq> {CHR ''0'', CHR ''1''}"
  shows "t \<in> {''111'', ''110'', ''101'', ''100'', ''011'', ''010'', ''001'', ''000''}"
proof -
  from assms(1) obtain x y z where t: "t = [x, y, z]"
    by (auto simp: length_Suc_conv numeral_3_eq_3)
  with assms(2) show ?thesis by auto
qed

lemma trigrams_covers:
  assumes "length t = 3" and "set t \<subseteq> {CHR ''0'', CHR ''1''}"
  shows "\<exists>s. trigrams t = Some s \<and> s \<noteq> Unknown"
  using three_bits_cases [OF assms] trigrams_table by auto

text \<open>
  Claim C9. For every string of six characters \<open>0\<close>/\<open>1\<close>, \<open>get_trigram_symbols\<close> returns
  (as its second component) the symbol that the table gives for characters [0:3] as the
  upper trigram and (as its first component) the symbol for characters [3:6] as the lower
  trigram; the table maps 111 to Heaven, 110 to Lake, 101 to Fire, 100 to Thunder, 011 to
  Wind, 010 to Water, 001 to Mountain and 000 to Earth, and neither symbol returned is
  the sentinel.
\<close>

theorem get_trigram_symbols_total:
  assumes "length binary_str = 6" and "set binary_str \<subseteq> {CHR ''0'', CHR ''1''}"
  shows "trigrams ''111'' = Some Heaven \<and> trigrams ''110'' = Some Lake \<and>
         trigrams ''101'' = Some Fire \<and> trigrams ''100'' = Some Thunder \<and>
         trigrams ''011'' = Some Wind \<and> trigrams ''010'' = Some Water \<and>
         trigrams ''001'' = Some Mountain \<and> trigrams ''000'' = Some Earth \<and>
         (\<exists>lower upper.
           get_trigram_symbols binary_str = (lower, upper) \<and>
           trigrams (take 3 binary_str) = Some upper \<and>
           trigrams (drop 3 binary_str) = Some lower \<and>
           upper \<noteq> Unknown \<and> lower \<noteq> Unknown)"
proof -
  have "set (take 3 binary_str) \<subseteq> {CHR ''0'', CHR ''1''}"
    using assms(2) set_take_subset by fastforce
  moreover have "length (take 3 binary_str) = 3" using assms(1) by simp
  ultimately obtain upper where u: "trigrams (take 3 binary_str) = Some upper" "upper \<noteq> Unknown"
    using trigrams_covers by blast
  have "set (drop 3 binary_str) \<subseteq> {CHR ''0'', CHR ''1''}"
    using assms(2) set_drop_subset by fastforce
  moreover have "length (drop 3 binary_str) = 3" using assms(1) by simp
  ultimately obtain lower where l: "trigrams (drop 3 binary_str) = Some lower" "lower \<noteq> Unknown"
    using trigrams_covers by blast
  show ?thesis using u l assms(1)
    by (simp add: trigrams_table get_trigram_symbols_def dict_get_def)
qed

theorem get_trigram_symbols_total_witness:
  "length ''101010'' = 6 \<and> set ''101010'' \<subseteq> {CHR ''0'', CHR ''1''} \<and>
   get_trigram_symbols ''101010'' = (Water, Fire)"
  using get_trigram_symbols_total [of "''101010''"] by (simp add: trigrams_def)


section \<open>The planetary squares\<close>

text \<open>
  Claim C10. \<open>get_square_by_planet\<close> returns the pair of the planet's fixed square and
  its dimension for each of the seven planet names; for Saturn that is the matrix
  [[4,9,2],[3,5,7],[8,1,6]] with size 3, whose magic constant is 15; for every other name
  it returns the Saturn square with size 3.
\<close>

theorem get_square_by_planet_lookup:
  "get_square_by_planet ''Saturn'' = ([[4, 9, 2], [3, 5, 7], [8, 1, 6]], 3) \<and>
   magic_constant 3 = 15 \<and>
   get_square_by_planet ''Saturn'' = (generate_saturn_square, 3) \<and>
   get_square_by_planet ''Jupiter'' = (generate_jupiter_square, 4) \<and>
   get_square_by_planet ''Mars'' = (generate_mars_square, 5) \<and>
   get_square_by_planet ''Sun'' = (generate_sun_square, 6) \<and>
   get_square_by_planet ''Venus'' = (generate_venus_square, 7) \<and>
   get_square_by_planet ''Mercury'' = (generate_mercury_square, 8) \<and>
   get_square_by_planet ''Moon'' = (generate_moon_square, 9) \<and>
   (planet_name \<notin> {''Saturn'', ''Jupiter'', ''Mars'', ''Sun'', ''Venus'', ''Mercury'', ''Moon''}
      \<longrightarrow> get_square_by_planet planet_name = (generate_saturn_square, 3))"
  by (simp add: get_square_by_planet_def planet_squares_def generate_saturn_square_def magic_constant_def)


theorem get_square_by_planet_lookup_witness:
  "''Pluto'' \<notin> {''Saturn'', ''Jupiter'', ''Mars'', ''Sun'', ''Venus'', ''Mercury'', ''Moon''} \<and>
   get_square_by_planet ''Pluto'' = ([[4, 9, 2], [3, 5, 7], [8, 1, 6]], 3)"
  using get_square_by_planet_lookup [of "''Pluto''"] by (simp add: generate_saturn_square_def)

lemma saturn_magic: "is_magic_square 3 generate_saturn_square"
  by code_simp

lemma jupiter_magic: "is_magic_square 4 generate_jupiter_square"
  by code_simp

lemma mars_magic: "is_magic_square 5 generate_mars_square"
  by code_simp

lemma sun_magic: "is_magic_square 6 generate_sun_square"
  by code_simp

lemma venus_magic: "is_magic_square 7 generate_venus_square"
  by code_simp

lemma mercury_magic: "is_magic_square 8 generate_mercury_square"
  by code_simp

lemma moon_magic: "is_magic_square 9 generate_moon_square"
  by code_simp

text \<open>
  Claim C8. Each of the seven fixed planetary squares, of orders 3 (Saturn) to 9 (Moon), is
  an \<open>N \<times> N\<close> matrix that holds each of \<open>1..N\<^sup>2\<close> exactly once and in which every row,
  every column and both main diagonals sum to \<open>N (N\<^sup>2 + 1) / 2\<close>.
\<close>

theorem planetary_squares_magic:
  "is_magic_square 3 generate_saturn_square \<and>
   is_magic_square 4 generate_jupiter_square \<and>
   is_magic_square 5 generate_mars_square \<and>
   is_magic_square 6 generate_sun_square \<and>
   is_magic_square 7 generate_venus_square \<and>
   is_magic_square 8 generate_mercury_square \<and>
   is_magic_square 9 generate_moon_square"
  by (intro conjI saturn_magic jupiter_magic mars_magic sun_magic venus_magic
        mercury_magic moon_magic)

section \<open>The coin method\<close>

lemma coin_values_3:
  "coin_values 3 rs =
     ([if fst (random_random rs) > 0.5 then 3 else 2,
       if fst (random_random (advance rs)) > 0.5 then 3 else 2,
       if fst (random_random (advance (advance rs))) > 0.5 then 3 else 2],
      advance (advance (advance rs)))"
  by (simp add: numeral_3_eq_3 random_random_def Let_def del: One_nat_def)

lemma coin_total_eq:
  "coin_total rs =
     ((if fst (random_random rs) > 0.5 then 3 else 2) +
      (if fst (random_random (advance rs)) > 0.5 then 3 else 2) +
      (if fst (random_random (advance (advance rs))) > 0.5 then 3 else 2),
      advance (advance (advance rs)))"
  by (simp add: coin_total_def coin_values_3)

lemma coin_total_range: "fst (coin_total rs) \<in> {6, 7, 8, 9}"
  by (simp add: coin_total_eq)

lemma coin_values_each: "list_all (\<lambda>c. c = 2 \<or> c = 3) (fst (coin_values k rs))"
proof (induction k arbitrary: rs)
  case 0
  show ?case by simp
next
  case (Suc k)
  obtain x rs1 where x: "random_random rs = (x, rs1)" by (cases "random_random rs")
  obtain xs rs2 where xs: "coin_values k rs1 = (xs, rs2)" by (cases "coin_values k rs1")
  show ?case using Suc [of rs1] by (simp add: x xs)
qed

lemma coin_branch_range:
  assumes "t \<in> {6, 7, 8, 9}"
  shows "coin_branch k t (hl, cl) =
           (hl @ [line_of_total t], cl @ (if t = 6 \<or> t = 9 then [k + 1] else []))"
  using assms by (auto simp: coin_branch_def line_of_total_def)

lemma fold_coin_line:
  "fst (fold coin_line ks ((hl, cl), rs)) =
     (hl @ map line_of_total (coin_totals (length ks) rs),
      cl @ changing_of_totals ks (coin_totals (length ks) rs))"
proof (induction ks arbitrary: hl cl rs)
  case Nil
  show ?case by (simp add: changing_of_totals_def)
next
  case (Cons k ks)
  obtain t rs' where t: "coin_total rs = (t, rs')" by (cases "coin_total rs")
  then have r: "t \<in> {6, 7, 8, 9}" using coin_total_range [of rs] by simp
  have "coin_line k ((hl, cl), rs) =
          ((hl @ [line_of_total t], cl @ (if t = 6 \<or> t = 9 then [k + 1] else [])), rs')"
    by (simp add: coin_line_def t coin_branch_range [OF r])
  then show ?case using Cons.IH t
    by (simp add: changing_of_totals_def)
qed

lemma coin_totals_length: "length (coin_totals k rs) = k"
  by (induction k arbitrary: rs) (simp_all add: Let_def split: prod.splits)

lemma coin_totals_range: "list_all (\<lambda>t. t \<in> {6, 7, 8, 9}) (coin_totals k rs)"
proof (induction k arbitrary: rs)
  case 0
  show ?case by simp
next
  case (Suc k)
  obtain t rs' where t: "coin_total rs = (t, rs')" by (cases "coin_total rs")
  then have "t \<in> {6, 7, 8, 9}" using coin_total_range [of rs] by simp
  then show ?case using Suc [of rs'] t by simp
qed

lemma cast_coins_eq:
  "fst (cast_coins rs) =
     (rev (map line_of_total (coin_totals 6 rs)),
      changing_of_totals [0, 1, 2, 3, 4, 5] (coin_totals 6 rs))"
proof -
  have len: "length [0, 1, 2, 3, 4, 5 :: int] = 6" by simp
  obtain hl cl rs' where f: "fold coin_line [0, 1, 2, 3, 4, 5] (([], []), rs) = ((hl, cl), rs')"
    by (metis prod.exhaust)
  have "(hl, cl) =
          (map line_of_total (coin_totals 6 rs),
           changing_of_totals [0, 1, 2, 3, 4, 5] (coin_totals 6 rs))"
    using fold_coin_line [of "[0, 1, 2, 3, 4, 5]" "[]" "[]" rs]
    by (simp only: f len append_Nil fst_conv)
  moreover have "cast_coins rs = ((rev hl, cl), rs')"
    by (simp only: cast_coins_def f Let_def prod.case)
  ultimately show ?thesis by (simp only: fst_conv prod.inject)
qed

text \<open>
  Claim C4. In the coin method every coin contributes 2 or 3 and every line's total of
  three coins lies in {6,7,8,9}. The hexagram returned holds, in reverse casting order, a
  yang line (1) for each total 7 or 9 and a yin line (0) for each total 6 or 8; the
  changing lines returned are the casting positions (from 1) of exactly the totals 6 and 9.
\<close>

theorem cast_coins_totals:
  "list_all (\<lambda>c. c = 2 \<or> c = 3) (fst (coin_values 3 rs)) \<and>
   length (coin_totals 6 rs) = 6 \<and>
   list_all (\<lambda>t. t \<in> {6, 7, 8, 9}) (coin_totals 6 rs) \<and>
   fst (fst (cast_coins rs)) =
     rev (map (\<lambda>t. if t = 7 \<or> t = 9 then 1 else 0) (coin_totals 6 rs)) \<and>
   snd (fst (cast_coins rs)) =
     map (\<lambda>(k, t). k + 1)
       (filter (\<lambda>(k, t). t = 6 \<or> t = 9) (zip [0, 1, 2, 3, 4, 5] (coin_totals 6 rs)))"
proof (intro conjI)
  show "list_all (\<lambda>c. c = 2 \<or> c = 3) (fst (coin_values 3 rs))"
    by (rule coin_values_each)
  show "length (coin_totals 6 rs) = 6"
    by (rule coin_totals_length)
  show "list_all (\<lambda>t. t \<in> {6, 7, 8, 9}) (coin_totals 6 rs)"
    by (rule coin_totals_range)
  have l: "line_of_total = (\<lambda>t. if t = 7 \<or> t = 9 then 1 else 0)"
    by (rule ext) (simp add: line_of_total_def)
  show "fst (fst (cast_coins rs)) =
     rev (map (\<lambda>t. if t = 7 \<or> t = 9 then 1 else 0) (coin_totals 6 rs))"
    by (simp only: cast_coins_eq fst_conv l)
  show "snd (fst (cast_coins rs)) =
     map (\<lambda>(k, t). k + 1)
       (filter (\<lambda>(k, t). t = 6 \<or> t = 9) (zip [0, 1, 2, 3, 4, 5] (coin_totals 6 rs)))"
    by (simp only: cast_coins_eq snd_conv changing_of_totals_def)
qed

section \<open>The yarrow-stalk method\<close>

lemma yarrow_division_eq:
  "\<exists>g rs'. yarrow_division d s =
     \<lparr> stalks = stalks s - 1 - (rem4 g + rem4 (stalks s - 1 - g)),
       line_value = (if d = 2 then of_bool (rem4 g + rem4 (stalks s - 1 - g) = 4) * 2 +
                        of_bool (rem4 g + rem4 (stalks s - 1 - g) = 8) * 3
                     else line_value s),
       remainder = rem4 g + rem4 (stalks s - 1 - g),
       source = rs' \<rparr>"
proof -
  obtain g rs' where g:
    "(if stalks s - 1 > 1 then randint 1 (stalks s - 1 - 1) (source s) else (1, source s)) = (g, rs')"
    by (metis prod.exhaust)
  have "yarrow_division d s =
     \<lparr> stalks = stalks s - 1 - (rem4 g + rem4 (stalks s - 1 - g)),
       line_value = (if d = 2 then of_bool (rem4 g + rem4 (stalks s - 1 - g) = 4) * 2 +
                        of_bool (rem4 g + rem4 (stalks s - 1 - g) = 8) * 3
                     else line_value s),
       remainder = rem4 g + rem4 (stalks s - 1 - g),
       source = rs' \<rparr>"
    unfolding yarrow_division_def Let_def g prod.case rem4_def by (rule refl)
  then show ?thesis by blast
qed

lemma yarrow_division_fields:
  "\<exists>g. remainder (yarrow_division d s) = rem4 g + rem4 (stalks s - 1 - g) \<and>
       stalks (yarrow_division d s) = stalks s - 1 - (rem4 g + rem4 (stalks s - 1 - g)) \<and>
       line_value (yarrow_division d s) =
         (if d = 2 then of_bool (rem4 g + rem4 (stalks s - 1 - g) = 4) * 2 +
                        of_bool (rem4 g + rem4 (stalks s - 1 - g) = 8) * 3
          else line_value s)"
proof -
  obtain g rs' where "yarrow_division d s =
     \<lparr> stalks = stalks s - 1 - (rem4 g + rem4 (stalks s - 1 - g)),
       line_value = (if d = 2 then of_bool (rem4 g + rem4 (stalks s - 1 - g) = 4) * 2 +
                        of_bool (rem4 g + rem4 (stalks s - 1 - g) = 8) * 3
                     else line_value s),
       remainder = rem4 g + rem4 (stalks s - 1 - g),
       source = rs' \<rparr>"
    using yarrow_division_eq by blast
  then show ?thesis by (intro exI [of _ g]) (simp only: division_state.simps simp_thms)
qed

lemma mod4_cases: "(g::int) mod 4 = 0 \<or> g mod 4 = 1 \<or> g mod 4 = 2 \<or> g mod 4 = 3"
proof -
  have "0 \<le> g mod 4" and "g mod 4 < 4" by simp_all
  then show ?thesis by linarith
qed

lemma rem4_sum_1:
  assumes "s mod 4 = 1"
  shows "rem4 g + rem4 (s - g) = 5"
proof -
  have e: "(s - g) mod 4 = (1 - g mod 4) mod 4"
    using assms mod_diff_eq [of s 4 g] by simp
  show ?thesis using mod4_cases [of g] by (elim disjE) (simp_all add: rem4_def e)
qed

lemma rem4_sum_3:
  assumes "s mod 4 = 3"
  shows "rem4 g + rem4 (s - g) = 3 \<or> rem4 g + rem4 (s - g) = 7"
proof -
  have e: "(s - g) mod 4 = (3 - g mod 4) mod 4"
    using assms mod_diff_eq [of s 4 g] by simp
  show ?thesis using mod4_cases [of g] by (elim disjE) (simp_all add: rem4_def e)
qed

lemma first_division:
  assumes "stalks s = 50"
  shows "stalks (yarrow_division d s) = 44"
proof -
  obtain g where g: "stalks (yarrow_division d s) = stalks s - 1 - (rem4 g + rem4 (stalks s - 1 - g))"
    using yarrow_division_fields [of d s] by blast
  have "rem4 g + rem4 (49 - g) = 5" by (rule rem4_sum_1) simp
  with g assms show ?thesis by simp
qed

lemma later_division:
  assumes "stalks s mod 4 = 0"
  shows "stalks (yarrow_division d s) mod 4 = 0 \<and>
         remainder (yarrow_division d s) \<in> {3, 7} \<and>
         (d = 2 \<longrightarrow> line_value (yarrow_division d s) = 0)"
proof -
  obtain g where g:
    "remainder (yarrow_division d s) = rem4 g + rem4 (stalks s - 1 - g)"
    "stalks (yarrow_division d s) = stalks s - 1 - (rem4 g + rem4 (stalks s - 1 - g))"
    "line_value (yarrow_division d s) =
         (if d = 2 then of_bool (rem4 g + rem4 (stalks s - 1 - g) = 4) * 2 +
                        of_bool (rem4 g + rem4 (stalks s - 1 - g) = 8) * 3
          else line_value s)"
    using yarrow_division_fields [of d s] by blast
  have "(stalks s - 1) mod 4 = 3" using assms mod_diff_eq [of "stalks s" 4 1] by simp
  then have r: "rem4 g + rem4 (stalks s - 1 - g) = 3 \<or> rem4 g + rem4 (stalks s - 1 - g) = 7"
    by (rule rem4_sum_3)
  have "stalks (yarrow_division d s) mod 4 = 0"
    using r g(2) assms mod_diff_eq [of "stalks s" 4 4] mod_diff_eq [of "stalks s" 4 8]
    by (elim disjE) simp_all
  moreover have "remainder (yarrow_division d s) \<in> {3, 7}" using r g(1) by auto
  moreover have "d = 2 \<longrightarrow> line_value (yarrow_division d s) = 0" using r g(3) by auto
  ultimately show ?thesis by blast
qed

lemma yarrow_divisions_always:
  "remainder (yarrow_divisions rs) \<in> {3, 7} \<and> line_value (yarrow_divisions rs) = 0"
proof -
  define s0 where "s0 = \<lparr> stalks = 50, line_value = 0, remainder = 0, source = rs \<rparr>"
  define s1 where "s1 = yarrow_division 0 s0"
  define s2 where "s2 = yarrow_division 1 s1"
  have e: "yarrow_divisions rs = yarrow_division 2 s2"
    by (simp add: yarrow_divisions_def s0_def s1_def s2_def)
  have "stalks s1 = 44" unfolding s1_def by (rule first_division) (simp add: s0_def)
  then have "stalks s1 mod 4 = 0" by simp
  then have "stalks s2 mod 4 = 0" unfolding s2_def using later_division [of s1 1] by simp
  then show ?thesis unfolding e using later_division [of s2 2] by simp
qed

lemma yarrow_trace_always:
  "list_all (\<lambda>d. remainder d \<in> {3, 7} \<and> line_value d = 0) (yarrow_trace k rs)"
  by (induction k arbitrary: rs) (simp_all add: Let_def yarrow_divisions_always del: insert_iff)

lemma yarrow_line_appends_nothing:
  "fst (yarrow_line k (st, rs)) = st"
  using yarrow_divisions_always [of rs]
  by (cases st) (simp add: yarrow_line_def yarrow_branch_def Let_def)

lemma fold_yarrow_line: "fst (fold yarrow_line ks (st, rs)) = st"
proof (induction ks arbitrary: rs)
  case Nil
  show ?case by simp
next
  case (Cons k ks)
  obtain st' rs' where y: "yarrow_line k (st, rs) = (st', rs')" by (cases "yarrow_line k (st, rs)")
  then have "st' = st" using yarrow_line_appends_nothing [of k st rs] by simp
  then show ?case using Cons [of rs'] y by simp
qed

lemma cast_yarrow_stalks_empty: "fst (cast_yarrow_stalks rs) = ([], [])"
proof -
  obtain st rs' where f: "fold yarrow_line [0, 1, 2, 3, 4, 5] (([], []), rs) = (st, rs')"
    by (metis prod.exhaust)
  then have "st = ([], [])" using fold_yarrow_line [of "[0, 1, 2, 3, 4, 5]" "([], [])" rs]
    by (simp only: fst_conv)
  then show ?thesis by (simp only: cast_yarrow_stalks_def f Let_def prod.case) simp
qed

text \<open>
  Claim C1 states that on every line the sum of remainders of the third division is 4 or
  8 and the line value is one of 6, 7, 8, 9. The method does not do that: by
  \<open>yarrow_trace_always\<close> the sum of the third division is 3 or 7 and the line value is 0,
  for every line and every source. Evaluated on the source whose draws are all 0 (each
  group of stalks is split as 1 and the rest), the six lines end with sum 3 and line
  value 0.
\<close>

theorem yarrow_third_division_at_input:
  "map (\<lambda>d. (remainder d, line_value d)) (yarrow_trace 6 (\<lambda>k. 0)) =
     [(3, 0), (3, 0), (3, 0), (3, 0), (3, 0), (3, 0)]"
proof -
  have d: "yarrow_divisions (\<lambda>k. 0) =
             \<lparr> stalks = 36, line_value = 0, remainder = 3, source = (\<lambda>k. 0) \<rparr>"
    by (simp add: yarrow_divisions_def yarrow_division_def randint_def advance_def Let_def)
  show ?thesis by (simp add: eval_nat_numeral d Let_def)
qed

section \<open>The secondary hexagram\<close>

lemma length_flip_line [simp]: "length (flip_line n xs) = length xs"
  by (simp add: flip_line_def Let_def)

lemma binary_flip_line: "binary_lines xs \<Longrightarrow> binary_lines (flip_line n xs)"
  by (auto simp: binary_lines_def flip_line_def Let_def list_all_iff dest: set_update_subset_insert [THEN subsetD])

lemma nth_flip_line:
  assumes "binary_lines xs" and "i < length xs"
  shows "flip_line n xs ! i = (if 6 - int i = n then 1 - xs ! i else xs ! i)"
proof -
  have b: "xs ! i = 0 \<or> xs ! i = 1"
    using assms by (simp add: binary_lines_def list_all_length)
  show ?thesis
  proof (cases "6 - int i = n")
    case True
    then have "nat (6 - n) = i" and "0 \<le> 6 - n" and "6 - n < int (length xs)"
      using assms(2) by auto
    then show ?thesis using b True assms(2) by (auto simp: flip_line_def Let_def)
  next
    case False
    then have "0 \<le> 6 - n \<Longrightarrow> nat (6 - n) \<noteq> i" by auto
    then show ?thesis using False by (simp add: flip_line_def Let_def)
  qed
qed

lemma fold_flip_line:
  assumes "binary_lines h" and "distinct c"
  shows "fold flip_line c h = flipped h c"
  using assms
proof (induction c arbitrary: h)
  case Nil
  show ?case by (simp add: flipped_def map_nth)
next
  case (Cons n c)
  have "fold flip_line (n # c) h = flipped (flip_line n h) c"
    using Cons by (simp add: binary_flip_line)
  also have "\<dots> = flipped h (n # c)"
    using Cons.prems by (auto simp: flipped_def nth_flip_line)
  finally show ?case .
qed

lemma binary_flipped: "binary_lines h \<Longrightarrow> binary_lines (flipped h c)"
  by (auto simp: binary_lines_def flipped_def list_all_length)

lemma flipped_twice: "binary_lines h \<Longrightarrow> flipped (flipped h c) c = h"
  by (rule nth_equalityI) (auto simp: flipped_def)

text \<open>
  Claim C5. For every primary hexagram of 6 binary lines and every list of distinct
  changing-line numbers in [1,6], the secondary hexagram is the primary one with the line
  at index \<open>6 - n\<close> flipped for each changing line \<open>n\<close>, and deriving again from the
  secondary hexagram with the same changing lines gives the primary hexagram back.
\<close>

theorem secondary_involution:
  assumes "length h = 6" and "list_all (\<lambda>x. x = 0 \<or> x = 1) h"
    and "distinct c" and "list_all (\<lambda>n. 1 \<le> n \<and> n \<le> 6) c"
  shows "secondary_lines_of h c =
           map (\<lambda>i. if 6 - int i \<in> set c then 1 - h ! i else h ! i) [0..<6] \<and>
         secondary_lines_of (secondary_lines_of h c) c = h"
proof -
  have b: "binary_lines h" using assms(2) by (simp add: binary_lines_def)
  have 1: "secondary_lines_of h c = flipped h c"
    unfolding secondary_lines_of_def using b assms(3) by (rule fold_flip_line)
  have "secondary_lines_of (flipped h c) c = flipped (flipped h c) c"
    unfolding secondary_lines_of_def using binary_flipped [OF b] assms(3) by (rule fold_flip_line)
  then have 2: "secondary_lines_of (secondary_lines_of h c) c = h"
    using 1 flipped_twice [OF b] by simp
  show ?thesis using 1 2 assms(1) by (simp add: flipped_def)
qed

theorem secondary_involution_witness:
  "length [1, 0, 1, 1, 0, 0 :: int] = 6 \<and>
   list_all (\<lambda>x. x = 0 \<or> x = 1) [1, 0, 1, 1, 0, 0 :: int] \<and>
   distinct [2, 6 :: int] \<and> list_all (\<lambda>n. 1 \<le> n \<and> n \<le> 6) [2, 6 :: int] \<and>
   secondary_lines_of (secondary_lines_of [1, 0, 1, 1, 0, 0] [2, 6]) [2, 6] = [1, 0, 1, 1, 0, 0]"
  using secondary_involution [of "[1, 0, 1, 1, 0, 0]" "[2, 6]", THEN conjunct2]
  by simp


section \<open>The hexagram and the binary key of a casting\<close>

lemma random_bits_length: "length (fst (random_bits k rs)) = k"
proof (induction k arbitrary: rs)
  case 0
  show ?case by simp
next
  case (Suc k)
  obtain x rs1 where x: "randint 0 1 rs = (x, rs1)" by (cases "randint 0 1 rs")
  obtain xs rs2 where xs: "random_bits k rs1 = (xs, rs2)" by (cases "random_bits k rs1")
  show ?case using Suc [of rs1] by (simp add: x xs)
qed

lemma randint_0_1: "fst (randint 0 1 rs) = 0 \<or> fst (randint 0 1 rs) = 1"
proof -
  have "0 \<le> int (rs 0) mod 2" and "int (rs 0) mod 2 < 2" by simp_all
  then show ?thesis unfolding randint_def by (simp del: pos_mod_sign pos_mod_bound) linarith
qed

lemma random_bits_binary: "list_all (\<lambda>b. b = 0 \<or> b = 1) (fst (random_bits k rs))"
proof (induction k arbitrary: rs)
  case 0
  show ?case by simp
next
  case (Suc k)
  obtain x rs1 where x: "randint 0 1 rs = (x, rs1)" by (cases "randint 0 1 rs")
  obtain xs rs2 where xs: "random_bits k rs1 = (xs, rs2)" by (cases "random_bits k rs1")
  show ?case using Suc [of rs1] randint_0_1 [of rs] by (simp add: x xs)
qed

lemma to_binary_shape:
  "length (to_binary ls) = length ls \<and> set (to_binary ls) \<subseteq> {CHR ''0'', CHR ''1''}"
  by (auto simp: to_binary_def)

lemma build_result_lines:
  assumes "length hl \<le> 6"
  shows "lines (fst (build_result hexagrams hl cl rs)) = hl @ fst (random_bits (6 - length hl) rs) \<and>
         binary (fst (build_result hexagrams hl cl rs)) =
           to_binary (hl @ fst (random_bits (6 - length hl) rs))"
proof (cases "length hl < 6")
  case True
  obtain bits rs1 where b: "random_bits (6 - length hl) rs = (bits, rs1)"
    by (cases "random_bits (6 - length hl) rs")
  show ?thesis by (simp add: build_result_def True b Let_def)
next
  case False
  then have "length hl = 6" using assms by simp
  then show ?thesis by (simp add: build_result_def Let_def)
qed

lemma build_result_binary:
  assumes "length hl \<le> 6"
  shows "length (binary (fst (build_result hexagrams hl cl rs))) = 6 \<and>
         set (binary (fst (build_result hexagrams hl cl rs))) \<subseteq> {CHR ''0'', CHR ''1''}"
  using assms build_result_lines [OF assms, of hexagrams cl rs] to_binary_shape
  by (simp add: random_bits_length)


lemma cast_coins_hexagram:
  "length (fst (fst (cast_coins rs))) = 6 \<and>
   list_all (\<lambda>x. x = 0 \<or> x = 1) (fst (fst (cast_coins rs)))"
  by (auto simp: cast_coins_eq coin_totals_length list_all_iff line_of_total_def)

lemma random_method_hexagram:
  "length (fst (random_bits 6 rs)) = 6 \<and>
   list_all (\<lambda>x. x = 0 \<or> x = 1) (fst (random_bits 6 rs))"
  using random_bits_length [of 6 rs] random_bits_binary [of 6 rs] by simp

text \<open>
  Claim C2 states that each of the three methods returns a hexagram of exactly six lines,
  each 0 or 1. The coin method and the uniform-random method do (\<open>cast_coins_hexagram\<close>,
  \<open>random_method_hexagram\<close>). The yarrow-stalk method does not: by
  \<open>cast_yarrow_stalks_empty\<close> it returns no line at all, for every source. Evaluated on
  the source whose draws are all 0, it returns the empty hexagram and no changing line.
\<close>

theorem cast_yarrow_stalks_at_input:
  "fst (cast_yarrow_stalks (\<lambda>k. 0)) = ([], []) \<and>
   length (fst (fst (cast_yarrow_stalks (\<lambda>k. 0)))) \<noteq> 6"
  by (simp add: cast_yarrow_stalks_empty)

lemma cast_coins_length: "length (fst (fst (cast_coins rs))) = 6"
  by (simp add: cast_coins_eq coin_totals_length)

lemma random_method_length: "length (fst (random_bits 6 rs)) = 6"
  by (rule random_bits_length)

subsection \<open>The padding bits are draws of the source\<close>

lemma advance_funpow: "(advance ^^ k) rs = (\<lambda>i. rs (i + k))"
  by (induction k arbitrary: rs) (simp_all add: advance_def funpow_swap1)

lemma random_bits_draws:
  "random_bits k rs = (map (\<lambda>i. int (rs i) mod 2) [0..<k], (advance ^^ k) rs)"
proof (induction k arbitrary: rs)
  case 0
  show ?case by simp
next
  case (Suc k)
  have r: "randint 0 1 rs = (int (rs 0) mod 2, advance rs)" by (simp add: randint_def)
  have m: "map (\<lambda>i. int (advance rs i) mod 2) [0..<k] = map (\<lambda>i. int (rs i) mod 2) [Suc 0..<Suc k]"
    by (simp add: map_Suc_upt [symmetric] advance_def del: upt_Suc)
  have "random_bits (Suc k) rs =
          (int (rs 0) mod 2 # map (\<lambda>i. int (advance rs i) mod 2) [0..<k],
           (advance ^^ k) (advance rs))"
    by (simp add: r Suc)
  also have "\<dots> = (map (\<lambda>i. int (rs i) mod 2) [0..<Suc k], (advance ^^ Suc k) rs)"
    unfolding m by (simp add: upt_rec [of 0 "Suc k"] funpow_swap1 del: upt_Suc)
  finally show ?case .
qed

lemma rem4_bounds: "1 \<le> rem4 g" "rem4 g \<le> 4"
proof -
  have "0 \<le> g mod 4" and "g mod 4 < 4" by simp_all
  then show "1 \<le> rem4 g" "rem4 g \<le> 4" unfolding rem4_def by (auto simp del: pos_mod_sign pos_mod_bound)
qed

lemma yarrow_division_source:
  assumes "2 < stalks s"
  shows "source (yarrow_division d s) = advance (source s)"
    and "stalks s - 9 \<le> stalks (yarrow_division d s)"
proof -
  have c: "stalks s - 1 > 1" using assms by simp
  show "source (yarrow_division d s) = advance (source s)"
    by (simp add: yarrow_division_def c Let_def randint_def split: prod.splits)
  obtain g where "stalks (yarrow_division d s) = stalks s - 1 - (rem4 g + rem4 (stalks s - 1 - g))"
    using yarrow_division_fields [of d s] by blast
  then show "stalks s - 9 \<le> stalks (yarrow_division d s)"
    using rem4_bounds(2) [of g] rem4_bounds(2) [of "stalks s - 1 - g"] by linarith
qed

lemma yarrow_divisions_source: "source (yarrow_divisions rs) = (advance ^^ 3) rs"
proof -
  define s0 where "s0 = \<lparr> stalks = 50, line_value = 0, remainder = 0, source = rs \<rparr>"
  define s1 where "s1 = yarrow_division 0 s0"
  define s2 where "s2 = yarrow_division 1 s1"
  have e: "yarrow_divisions rs = yarrow_division 2 s2"
    by (simp add: yarrow_divisions_def s0_def s1_def s2_def)
  have 0: "2 < stalks s0" "source s0 = rs" by (simp_all add: s0_def)
  have 1: "source s1 = advance rs" "41 \<le> stalks s1"
    using yarrow_division_source [OF 0(1), of 0] by (simp_all add: s1_def s0_def)
  then have "2 < stalks s1" by simp
  then have 2: "source s2 = advance (advance rs)" "32 \<le> stalks s2"
    using yarrow_division_source [of s1 1] 1 by (simp_all add: s2_def)
  then have "2 < stalks s2" by simp
  then have "source (yarrow_division 2 s2) = advance (advance (advance rs))"
    using yarrow_division_source(1) [of s2 2] 2 by simp
  then show ?thesis by (simp add: e numeral_3_eq_3)
qed

lemma fold_yarrow_line_source:
  "snd (fold yarrow_line ks (st, rs)) = (advance ^^ (3 * length ks)) rs"
proof (induction ks arbitrary: st rs)
  case Nil
  show ?case by simp
next
  case (Cons k ks)
  obtain st' where y: "yarrow_line k (st, rs) = (st', (advance ^^ 3) rs)"
    by (simp add: yarrow_line_def Let_def yarrow_divisions_source)
  have "(advance ^^ (3 * length ks)) ((advance ^^ 3) rs) = (advance ^^ (3 * length (k # ks))) rs"
    by (simp add: advance_funpow ac_simps)
  then show ?case using Cons [of st' "(advance ^^ 3) rs"] y by simp
qed

lemma cast_yarrow_stalks_source: "snd (cast_yarrow_stalks rs) = (advance ^^ 18) rs"
proof -
  obtain st rs' where f: "fold yarrow_line [0, 1, 2, 3, 4, 5] (([], []), rs) = (st, rs')"
    by (metis prod.exhaust)
  have "rs' = (advance ^^ (3 * length [0, 1, 2, 3, 4, 5 :: int])) rs"
    using fold_yarrow_line_source [of "[0, 1, 2, 3, 4, 5]" "([], [])" rs]
    by (simp only: f snd_conv)
  then have "rs' = (advance ^^ 18) rs" by simp
  then show ?thesis by (cases st) (simp only: cast_yarrow_stalks_def f Let_def prod.case snd_conv)
qed

text \<open>
  Claim C3. For every method argument and source, the field \<open>binary\<close> of the result of
  \<open>cast_iching_traditional\<close> is a string of exactly 6 characters \<open>0\<close>/\<open>1\<close>. Whatever
  lines (at most 6) and changing lines the casting produced, the lines of the result are
  those lines followed by \<open>6 - length\<close> bits, each the result of one \<^verbatim>\<open>randint(0, 1)\<close> on
  the next draw of the source (draw \<open>i\<close> gives the bit \<open>rs i mod 2\<close>), the source is left
  advanced by that many draws, and the key built from them has 6 characters \<open>0\<close>/\<open>1\<close>.
  For the yarrow-stalk method, which consumes 18 draws and returns no line, all six
  lines of the result are the draws 18 to 23 of the source.
\<close>

theorem cast_iching_traditional_binary:
  "length (binary (fst (cast_iching_traditional hexagrams method rs))) = 6 \<and>
   set (binary (fst (cast_iching_traditional hexagrams method rs))) \<subseteq> {CHR ''0'', CHR ''1''} \<and>
   (method = ''yarrow'' \<longrightarrow>
      lines (fst (cast_iching_traditional hexagrams method rs)) =
        map (\<lambda>i. int (rs (18 + i)) mod 2) [0, 1, 2, 3, 4, 5]) \<and>
   (length hl \<le> 6 \<longrightarrow>
      lines (fst (build_result hexagrams hl cl rs')) = hl @ fst (random_bits (6 - length hl) rs') \<and>
      fst (random_bits (6 - length hl) rs') = map (\<lambda>i. int (rs' i) mod 2) [0..<6 - length hl] \<and>
      fst (random_bits (6 - length hl) rs') =
        map (\<lambda>i. fst (randint 0 1 ((advance ^^ i) rs'))) [0..<6 - length hl] \<and>
      snd (build_result hexagrams hl cl rs') = (advance ^^ (6 - length hl)) rs' \<and>
      list_all (\<lambda>b. b = 0 \<or> b = 1) (fst (random_bits (6 - length hl) rs')) \<and>
      binary (fst (build_result hexagrams hl cl rs')) =
        to_binary (hl @ map (\<lambda>i. int (rs' i) mod 2) [0..<6 - length hl]) \<and>
      length (binary (fst (build_result hexagrams hl cl rs'))) = 6 \<and>
      set (binary (fst (build_result hexagrams hl cl rs'))) \<subseteq> {CHR ''0'', CHR ''1''})"
proof -
  obtain hl0 cl0 rs0 where c:
    "(if method = ''coins'' then cast_coins rs
      else if method = ''yarrow'' then cast_yarrow_stalks rs
      else (let (bits, rs') = random_bits 6 rs in ((bits, []), rs'))) = ((hl0, cl0), rs0)"
    by (metis prod.exhaust)
  have "length hl0 \<le> 6"
  proof (cases "method = ''coins''")
    case True
    then have "hl0 = fst (fst (cast_coins rs))" using c by simp
    then show ?thesis by (simp add: cast_coins_length)
  next
    case False
    show ?thesis
    proof (cases "method = ''yarrow''")
      case True
      then have "hl0 = fst (fst (cast_yarrow_stalks rs))" using c False by simp
      then show ?thesis by (simp add: cast_yarrow_stalks_empty)
    next
      case y: False
      obtain bits rs1 where b: "random_bits 6 rs = (bits, rs1)" by (cases "random_bits 6 rs")
      then have "hl0 = fst (random_bits 6 rs)" using c False y by simp
      then show ?thesis by (simp add: random_bits_length)
    qed
  qed
  moreover have e: "cast_iching_traditional hexagrams method rs = build_result hexagrams hl0 cl0 rs0"
    unfolding cast_iching_traditional_def c by simp
  ultimately have 1: "length (binary (fst (cast_iching_traditional hexagrams method rs))) = 6 \<and>
    set (binary (fst (cast_iching_traditional hexagrams method rs))) \<subseteq> {CHR ''0'', CHR ''1''}"
    using build_result_binary [of hl0 hexagrams cl0 rs0] by simp
  have 2: "lines (fst (cast_iching_traditional hexagrams method rs)) =
             map (\<lambda>i. int (rs (18 + i)) mod 2) [0, 1, 2, 3, 4, 5]" if "method = ''yarrow''"
  proof -
    have "cast_yarrow_stalks rs = ((hl0, cl0), rs0)" using c that by simp
    then have "hl0 = []" and "rs0 = (advance ^^ 18) rs"
      using cast_yarrow_stalks_empty [of rs] cast_yarrow_stalks_source [of rs] by simp_all
    then have "lines (fst (cast_iching_traditional hexagrams method rs)) =
                 map (\<lambda>i. int (((advance ^^ 18) rs) i) mod 2) [0..<6]"
      unfolding e using build_result_lines [of "[]" hexagrams cl0 "(advance ^^ 18) rs"]
      by (simp add: random_bits_draws)
    also have "[0..<6] = [0, 1, 2, 3, 4, 5]" by (simp add: upt_rec)
    finally show ?thesis by (simp add: advance_funpow add.commute)
  qed
  have 3: "snd (build_result hexagrams hl cl rs') = (advance ^^ (6 - length hl)) rs'"
    if "length hl \<le> 6"
  proof (cases "length hl < 6")
    case True
    show ?thesis by (simp add: build_result_def True random_bits_draws Let_def)
  next
    case False
    then show ?thesis using that by (simp add: build_result_def Let_def)
  qed
  have 4: "fst (random_bits k rs') = map (\<lambda>i. fst (randint 0 1 ((advance ^^ i) rs'))) [0..<k]" for k
    by (simp add: random_bits_draws randint_def advance_funpow)
  have 5: "binary (fst (build_result hexagrams hl cl rs')) =
        to_binary (hl @ map (\<lambda>i. int (rs' i) mod 2) [0..<6 - length hl])" if "length hl \<le> 6"
    using build_result_lines [OF that, of hexagrams cl rs'] by (simp add: random_bits_draws)
  show ?thesis
    using 1 2 3 4 [of "6 - length hl"] 5
      build_result_binary [of hl hexagrams cl rs'] build_result_lines [of hl hexagrams cl rs']
      random_bits_binary [of "6 - length hl" rs'] random_bits_draws [of "6 - length hl" rs']
    by (intro conjI impI) simp_all
qed

theorem cast_iching_traditional_binary_witness:
  "length [1, 0 :: int] \<le> 6 \<and>
   lines (fst (cast_iching_traditional (Map.empty :: string \<rightharpoonup> unit) ''yarrow'' (\<lambda>k. k div 3))) =
     [0, 0, 0, 1, 1, 1] \<and>
   binary (fst (cast_iching_traditional (Map.empty :: string \<rightharpoonup> unit) ''yarrow'' (\<lambda>k. k div 3))) =
     ''000111'' \<and>
   lines (fst (build_result (Map.empty :: string \<rightharpoonup> unit) [1, 0] [] (\<lambda>k. k div 3))) =
     [1, 0, 0, 0, 0, 1] \<and>
   binary (fst (build_result (Map.empty :: string \<rightharpoonup> unit) [1, 0] [] (\<lambda>k. k div 3))) = ''100001''"
proof -
  have u: "[0..<4] = [0, 1, 2, 3]" by (simp add: upt_rec)
  have l: "lines (fst (cast_iching_traditional (Map.empty :: string \<rightharpoonup> unit) ''yarrow'' (\<lambda>k. k div 3))) =
     [0, 0, 0, 1, 1, 1]"
    using cast_iching_traditional_binary [of "Map.empty :: string \<rightharpoonup> unit" "''yarrow''"
      "\<lambda>k. k div 3" "[1, 0]" "[]" "\<lambda>k. k div 3"]
    by simp
  have b: "binary (fst (cast_iching_traditional (Map.empty :: string \<rightharpoonup> unit) ''yarrow'' (\<lambda>k. k div 3))) =
     to_binary (lines (fst (cast_iching_traditional (Map.empty :: string \<rightharpoonup> unit) ''yarrow'' (\<lambda>k. k div 3))))"
    by (simp add: cast_iching_traditional_def build_result_def Let_def split: prod.splits)
  show ?thesis
    using cast_iching_traditional_binary [of "Map.empty :: string \<rightharpoonup> unit" "''yarrow''"
      "\<lambda>k. k div 3" "[1, 0]" "[]" "\<lambda>k. k div 3"] l
    by (simp add: b u to_binary_def)
qed

section \<open>The all-heads scenario\<close>

lemma heads_advance: "heads ((advance ^^ j) rs) k = heads rs (k + j)"
  by (simp add: heads_def funpow_add)

lemma coin_total_heads:
  assumes "heads rs 0" and "heads rs 1" and "heads rs 2"
  shows "coin_total rs = (9, (advance ^^ 3) rs)"
proof -
  have "fst (random_random rs) > 0.5" using assms(1) by (simp add: heads_def)
  moreover have "fst (random_random (advance rs)) > 0.5" using assms(2) by (simp add: heads_def)
  moreover have "fst (random_random (advance (advance rs))) > 0.5"
    using assms(3) by (simp add: heads_def numeral_2_eq_2)
  ultimately show ?thesis by (simp add: coin_total_eq numeral_3_eq_3)
qed

lemma coin_totals_heads:
  assumes "\<forall>j < 3 * k. heads rs j"
  shows "coin_totals k rs = replicate k 9"
  using assms
proof (induction k arbitrary: rs)
  case 0
  show ?case by simp
next
  case (Suc k)
  have t: "coin_total rs = (9, (advance ^^ 3) rs)"
    using Suc.prems by (intro coin_total_heads) simp_all
  have "\<forall>j < 3 * k. heads ((advance ^^ 3) rs) j"
    using Suc.prems by (simp add: heads_advance)
  then have "coin_totals k ((advance ^^ 3) rs) = replicate k 9" by (rule Suc.IH)
  then show ?case by (simp add: t)
qed

text \<open>
  Claim C6. If the first 18 draws of the source all come up heads, the coin method has a
  total of 9 on every line, all six lines are yang and changing, the primary binary key is
  111111 and the secondary binary key is 000000.
\<close>

theorem all_heads_scenario:
  assumes "\<forall>k < 18. heads rs k"
  shows "coin_totals 6 rs = [9, 9, 9, 9, 9, 9] \<and>
         lines (fst (cast_iching_traditional hexagrams ''coins'' rs)) = [1, 1, 1, 1, 1, 1] \<and>
         changing_lines (fst (cast_iching_traditional hexagrams ''coins'' rs)) = [1, 2, 3, 4, 5, 6] \<and>
         binary (fst (cast_iching_traditional hexagrams ''coins'' rs)) = ''111111'' \<and>
         secondary_binary (fst (cast_iching_traditional hexagrams ''coins'' rs)) = Some ''000000''"
proof -
  have "coin_totals 6 rs = replicate 6 9" using assms by (intro coin_totals_heads) simp
  then have t: "coin_totals 6 rs = [9, 9, 9, 9, 9, 9]" by (simp add: eval_nat_numeral)
  have "fst (cast_coins rs) = ([1, 1, 1, 1, 1, 1], [1, 2, 3, 4, 5, 6])"
    by (simp add: cast_coins_eq t line_of_total_def changing_of_totals_def)
  then obtain rs1 where c: "cast_coins rs = (([1, 1, 1, 1, 1, 1], [1, 2, 3, 4, 5, 6]), rs1)"
    by (cases "cast_coins rs") simp
  have "cast_iching_traditional hexagrams ''coins'' rs =
          build_result hexagrams [1, 1, 1, 1, 1, 1] [1, 2, 3, 4, 5, 6] rs1"
    by (simp add: cast_iching_traditional_def c)
  then show ?thesis using t
    by (simp add: build_result_def to_binary_def secondary_lines_of_def flip_line_def Let_def)
qed

lemma advance_const: "(advance ^^ k) (\<lambda>i. c) = (\<lambda>i. c)"
  by (induction k) (simp_all add: advance_def)

theorem all_heads_scenario_witness:
  "list_all (heads (\<lambda>i. 9007199254740991)) [0..<18] \<and>
   binary (fst (cast_iching_traditional (Map.empty :: string \<rightharpoonup> unit) ''coins''
     (\<lambda>i. 9007199254740991))) = ''111111'' \<and>
   secondary_binary (fst (cast_iching_traditional (Map.empty :: string \<rightharpoonup> unit) ''coins''
     (\<lambda>i. 9007199254740991))) = Some ''000000''"
proof -
  have h: "\<forall>k < 18. heads (\<lambda>i. 9007199254740991) k"
    by (simp add: heads_def advance_const random_random_def)
  show ?thesis using h all_heads_scenario [OF h, of "Map.empty :: string \<rightharpoonup> unit"]
    by (simp add: list_all_iff)
qed

section \<open>The Siamese construction\<close>

lemma div_lt_square:
  assumes "0 < (n::int)" and "k < n * n"
  shows "k div n < n"
proof (rule ccontr)
  assume "\<not> k div n < n"
  then have "n * n \<le> n * (k div n)" using assms(1) by (simp add: mult_left_mono)
  also have "\<dots> \<le> n * (k div n) + k mod n"
    using pos_mod_sign [OF assms(1), of k] by linarith
  also have "\<dots> = k" by simp
  finally show False using assms(2) by simp
qed

lemma index_bounds:
  assumes "0 < n"
  shows "0 \<le> siamese_index n a b" and "siamese_index n a b < n * n"
proof -
  define q where "q = (a + b - n div 2) mod n"
  define r where "r = (2 * q - a) mod n"
  have q: "0 \<le> q" "q < n" and r: "0 \<le> r" "r < n" using assms by (simp_all add: q_def r_def)
  have e: "siamese_index n a b = q * n + r" by (simp add: siamese_index_def q_def r_def)
  show "0 \<le> siamese_index n a b" using q r assms by (simp add: e)
  have "q * n + r < q * n + n" using r by simp
  also have "\<dots> = (q + 1) * n" by (simp add: algebra_simps)
  also have "\<dots> \<le> n * n" using q assms by (simp add: mult_right_mono mult.commute)
  finally show "siamese_index n a b < n * n" by (simp add: e)
qed

lemma index_of_position:
  assumes "0 < n" and "0 \<le> k" and "k < n * n"
  shows "siamese_index n (siamese_row n k) (siamese_col n k) = k"
proof -
  define q where "q = k div n"
  define r where "r = k mod n"
  have r: "0 \<le> r" "r < n" using assms(1) by (simp_all add: r_def)
  have q: "0 \<le> q" "q < n"
    using assms by (simp_all add: q_def pos_imp_zdiv_nonneg_iff div_lt_square)
  have 1: "(siamese_row n k + siamese_col n k - n div 2) mod n = q"
  proof -
    have "(siamese_row n k + siamese_col n k - n div 2) mod n =
            ((2 * q - r) + (n div 2 - q + r) - n div 2) mod n"
      unfolding siamese_row_def siamese_col_def q_def [symmetric] r_def [symmetric]
      by (intro mod_diff_cong mod_add_cong mod_mod_trivial refl)
    also have "\<dots> = q mod n" by (simp add: algebra_simps)
    finally show ?thesis using q by simp
  qed
  have 2: "(2 * q - siamese_row n k) mod n = r"
  proof -
    have "(2 * q - siamese_row n k) mod n = (2 * q - (2 * q - r)) mod n"
      unfolding siamese_row_def q_def [symmetric] r_def [symmetric]
      by (intro mod_diff_cong mod_mod_trivial refl)
    also have "\<dots> = r mod n" by simp
    finally show ?thesis using r by simp
  qed
  show ?thesis unfolding siamese_index_def 1 2 by (simp add: q_def r_def)
qed

lemma position_of_index:
  assumes "0 < n" and "0 \<le> a" and "a < n" and "0 \<le> b" and "b < n"
  shows "siamese_row n (siamese_index n a b) = a" and "siamese_col n (siamese_index n a b) = b"
proof -
  define q where "q = (a + b - n div 2) mod n"
  define r where "r = (2 * q - a) mod n"
  have q: "0 \<le> q" "q < n" and r: "0 \<le> r" "r < n" using assms by (simp_all add: q_def r_def)
  have e: "siamese_index n a b = q * n + r" by (simp add: siamese_index_def q_def r_def)
  have d: "(q * n + r) div n = q" using r assms(1) by simp
  have m: "(q * n + r) mod n = r" using r by simp
  have "siamese_row n (siamese_index n a b) = a mod n"
    unfolding e siamese_row_def d m unfolding r_def by (simp add: mod_simps)
  then show "siamese_row n (siamese_index n a b) = a" using assms by simp
  have "siamese_col n (siamese_index n a b) =
          (n div 2 - (a + b - n div 2) + (2 * (a + b - n div 2) - a)) mod n"
    unfolding e siamese_col_def d m unfolding r_def q_def by (simp add: mod_simps)
  also have "\<dots> = b mod n" by (simp add: algebra_simps)
  finally have "siamese_col n (siamese_index n a b) = b mod n" .
  then show "siamese_col n (siamese_index n a b) = b" using assms by simp
qed

lemma position_bounds:
  assumes "0 < n"
  shows "0 \<le> siamese_row n k" "siamese_row n k < n" "0 \<le> siamese_col n k" "siamese_col n k < n"
  using assms by (simp_all add: siamese_row_def siamese_col_def)

lemma partial_square_nth:
  assumes "a < n" and "b < n"
  shows "partial_square n k ! a ! b = siamese_cell n k a b"
  using assms by (simp add: partial_square_def)

lemma partial_square_update:
  assumes "0 < n" and "0 \<le> k" and "k < int n * int n"
  shows "(partial_square n k)
           [nat (siamese_row (int n) k) :=
              (partial_square n k ! nat (siamese_row (int n) k))
                [nat (siamese_col (int n) k) := k + 1]] = partial_square n (k + 1)"
proof -
  define a where "a = nat (siamese_row (int n) k)"
  define b where "b = nat (siamese_col (int n) k)"
  have n: "0 < int n" using assms(1) by simp
  have a: "int a = siamese_row (int n) k" "a < n"
    using position_bounds [OF n, of k] by (simp_all add: a_def)
  have b: "int b = siamese_col (int n) k" "b < n"
    using position_bounds [OF n, of k] by (simp_all add: b_def)
  have here: "siamese_index (int n) (int a) (int b) = k"
    unfolding a b using n assms(2,3) by (rule index_of_position)
  have other: "siamese_index (int n) (int a') (int b') \<noteq> k"
    if "a' < n" "b' < n" "a' \<noteq> a \<or> b' \<noteq> b" for a' b'
  proof
    assume e: "siamese_index (int n) (int a') (int b') = k"
    have "siamese_row (int n) (siamese_index (int n) (int a') (int b')) = int a'"
      and "siamese_col (int n) (siamese_index (int n) (int a') (int b')) = int b'"
      using that n by (simp_all add: position_of_index)
    then have "int a' = int a" and "int b' = int b" unfolding e a b by simp_all
    then show False using that(3) by simp
  qed
  show ?thesis
    unfolding a_def [symmetric] b_def [symmetric]
  proof (rule nth_equalityI)
    show "length ((partial_square n k)[a := (partial_square n k ! a)[b := k + 1]]) =
          length (partial_square n (k + 1))"
      by (simp add: partial_square_def)
  next
    fix a' assume "a' < length ((partial_square n k)[a := (partial_square n k ! a)[b := k + 1]])"
    then have a': "a' < n" by (simp add: partial_square_def)
    show "(partial_square n k)[a := (partial_square n k ! a)[b := k + 1]] ! a' =
          partial_square n (k + 1) ! a'"
    proof (rule nth_equalityI)
      show "length ((partial_square n k)[a := (partial_square n k ! a)[b := k + 1]] ! a') =
            length (partial_square n (k + 1) ! a')"
        using a' by (cases "a' = a") (simp_all add: partial_square_def)
    next
      fix b' assume "b' < length ((partial_square n k)[a := (partial_square n k ! a)[b := k + 1]] ! a')"
      then have b': "b' < n" using a' by (cases "a' = a") (simp_all add: partial_square_def)
      show "(partial_square n k)[a := (partial_square n k ! a)[b := k + 1]] ! a' ! b' =
            partial_square n (k + 1) ! a' ! b'"
      proof (cases "a' = a \<and> b' = b")
        case True
        then show ?thesis using a(2) b(2) here
          by (simp add: partial_square_def siamese_cell_def)
      next
        case False
        then have "siamese_index (int n) (int a') (int b') \<noteq> k" using other a' b' by blast
        then have c: "siamese_cell n (k + 1) a' b' = siamese_cell n k a' b'"
          by (auto simp: siamese_cell_def)
        have "(partial_square n k)[a := (partial_square n k ! a)[b := k + 1]] ! a' ! b' =
              partial_square n k ! a' ! b'"
          using False a' b' a(2) by (cases "a' = a") (simp_all add: partial_square_def)
        then show ?thesis using a' b' c by (simp add: partial_square_nth)
      qed
    qed
  qed
qed

lemma position_sum:
  assumes "0 < n" and "0 \<le> k" and "k < n * n"
  shows "(siamese_row n k + siamese_col n k - n div 2) mod n = k div n"
proof -
  have q: "0 \<le> k div n" "k div n < n"
    using assms by (simp_all add: pos_imp_zdiv_nonneg_iff div_lt_square)
  have "(siamese_row n k + siamese_col n k - n div 2) mod n =
          ((2 * (k div n) - k mod n) + (n div 2 - k div n + k mod n) - n div 2) mod n"
    unfolding siamese_row_def siamese_col_def
    by (intro mod_diff_cong mod_add_cong mod_mod_trivial refl)
  also have "\<dots> = (k div n) mod n" by (simp add: algebra_simps)
  finally show ?thesis using q by simp
qed

lemma next_cell_index:
  assumes "0 < n" and "0 \<le> k" and "k < n * n"
  shows "siamese_index n ((siamese_row n k - 1) mod n) ((siamese_col n k + 1) mod n) =
           (k div n) * n + (k mod n + 1) mod n"
proof -
  have "(((siamese_row n k - 1) mod n) + ((siamese_col n k + 1) mod n) - n div 2) mod n =
          ((siamese_row n k - 1) + (siamese_col n k + 1) - n div 2) mod n"
    by (intro mod_diff_cong mod_add_cong mod_mod_trivial refl)
  also have "\<dots> = (siamese_row n k + siamese_col n k - n div 2) mod n" by simp
  also have "\<dots> = k div n" using assms by (rule position_sum)
  finally have 1: "(((siamese_row n k - 1) mod n) + ((siamese_col n k + 1) mod n) - n div 2) mod n =
    k div n" .
  have "(2 * (k div n) - (siamese_row n k - 1) mod n) mod n =
          (2 * (k div n) - (siamese_row n k - 1)) mod n"
    by (rule mod_diff_right_eq)
  also have "\<dots> = (2 * (k div n) + 1 - siamese_row n k) mod n" by (simp add: algebra_simps)
  also have "\<dots> = (2 * (k div n) + 1 - (2 * (k div n) - k mod n)) mod n"
    unfolding siamese_row_def by (rule mod_diff_right_eq)
  also have "\<dots> = (k mod n + 1) mod n" by (simp add: algebra_simps)
  finally have 2: "(2 * (k div n) - (siamese_row n k - 1) mod n) mod n = (k mod n + 1) mod n" .
  show ?thesis unfolding siamese_index_def 1 2 by (rule refl)
qed

lemma next_position_diagonal:
  assumes "0 < n" and "k mod n + 1 < n"
  shows "siamese_row n (k + 1) = (siamese_row n k - 1) mod n"
    and "siamese_col n (k + 1) = (siamese_col n k + 1) mod n"
proof -
  have r: "0 \<le> k mod n" using assms(1) by simp
  have k: "k + 1 = (k div n) * n + (k mod n + 1)" by simp
  have d: "(k + 1) div n = k div n"
    by (subst k, subst div_mult_self3) (use assms r in simp_all)
  have m: "(k + 1) mod n = k mod n + 1"
    by (subst k, subst mod_mult_self3) (use assms r in simp_all)
  have "(siamese_row n k - 1) mod n = ((2 * (k div n) - k mod n) - 1) mod n"
    unfolding siamese_row_def by (intro mod_diff_cong mod_mod_trivial refl)
  then show "siamese_row n (k + 1) = (siamese_row n k - 1) mod n"
    unfolding siamese_row_def [of n "k + 1"] d m by (simp add: algebra_simps)
  have "(siamese_col n k + 1) mod n = ((n div 2 - k div n + k mod n) + 1) mod n"
    unfolding siamese_col_def by (intro mod_add_cong mod_mod_trivial refl)
  then show "siamese_col n (k + 1) = (siamese_col n k + 1) mod n"
    unfolding siamese_col_def [of n "k + 1"] d m by (simp add: algebra_simps)
qed

lemma next_position_down:
  assumes "0 < n" and "k mod n + 1 = n"
  shows "siamese_row n (k + 1) = (siamese_row n k + 1) mod n"
    and "siamese_col n (k + 1) = siamese_col n k"
proof -
  have r: "k mod n = n - 1" using assms(2) by simp
  have k: "k + 1 = (k div n + 1) * n + 0"
  proof -
    have "k + 1 = (k div n) * n + (k mod n + 1)" by simp
    also have "\<dots> = (k div n + 1) * n + 0" unfolding assms(2) by (simp add: algebra_simps)
    finally show ?thesis .
  qed
  have d: "(k + 1) div n = k div n + 1"
    by (subst k, subst div_mult_self3) (use assms in simp_all)
  have m: "(k + 1) mod n = 0"
    by (subst k, subst mod_mult_self3) (use assms in simp_all)
  have "(siamese_row n k + 1) mod n = ((2 * (k div n) - (n - 1)) + 1) mod n"
    unfolding siamese_row_def r by (intro mod_add_cong mod_mod_trivial refl)
  also have "\<dots> = (2 * (k div n + 1) + - 1 * n) mod n" by (simp add: algebra_simps)
  also have "\<dots> = (2 * (k div n + 1)) mod n" by (rule mod_mult_self1)
  finally show "siamese_row n (k + 1) = (siamese_row n k + 1) mod n"
    unfolding siamese_row_def [of n "k + 1"] d m by simp
  have "siamese_col n k = ((n div 2 - (k div n + 1)) + 1 * n) mod n"
    unfolding siamese_col_def r by (simp add: algebra_simps)
  also have "\<dots> = (n div 2 - (k div n + 1)) mod n" by (rule mod_mult_self1)
  finally show "siamese_col n (k + 1) = siamese_col n k"
    unfolding siamese_col_def [of n "k + 1"] d m by simp
qed

lemma siamese_cell_nonzero:
  assumes "0 < n"
  shows "siamese_cell n k a b \<noteq> 0 \<longleftrightarrow> siamese_index (int n) (int a) (int b) < k"
  using index_bounds(1) [of "int n" "int a" "int b"] assms by (simp add: siamese_cell_def)

lemma siamese_step_invariant:
  assumes "0 < n" and "0 \<le> k" and "k < int n * int n"
  shows "siamese_step (int n) (k + 1)
           (partial_square n k, siamese_row (int n) k, siamese_col (int n) k) =
         (partial_square n (k + 1), siamese_row (int n) (k + 1), siamese_col (int n) (k + 1))"
proof -
  have n: "0 < int n" using assms(1) by simp
  define a' where "a' = (siamese_row (int n) k - 1) mod int n"
  define b' where "b' = (siamese_col (int n) k + 1) mod int n"
  have a': "0 \<le> a'" "a' < int n" and b': "0 \<le> b'" "b' < int n"
    using n by (simp_all add: a'_def b'_def)
  have i: "siamese_index (int n) (int (nat a')) (int (nat b')) =
             (k div int n) * int n + (k mod int n + 1) mod int n"
    using a' b' next_cell_index [OF n assms(2,3)] by (simp add: a'_def b'_def)
  have r: "0 \<le> k mod int n" "k mod int n < int n" using n by simp_all
  have cell: "partial_square n (k + 1) ! nat a' ! nat b' = siamese_cell n (k + 1) (nat a') (nat b')"
    using a' b' by (intro partial_square_nth) simp_all
  have k: "k = (k div int n) * int n + k mod int n" by simp
  show ?thesis
  proof (cases "k mod int n + 1 < int n")
    case True
    then have "(k mod int n + 1) mod int n = k mod int n + 1" using r by simp
    then have "siamese_index (int n) (int (nat a')) (int (nat b')) = k + 1"
      unfolding i by simp
    then have "partial_square n (k + 1) ! nat a' ! nat b' = 0"
      unfolding cell by (simp add: siamese_cell_def)
    then show ?thesis
      unfolding siamese_step_def Let_def prod.case
        partial_square_update [OF assms] a'_def [symmetric] b'_def [symmetric]
      using next_position_diagonal [OF n True]
      by (simp add: a'_def b'_def)
  next
    case False
    then have e: "k mod int n + 1 = int n" using r by simp
    then have "(k mod int n + 1) mod int n = 0" by simp
    then have "siamese_index (int n) (int (nat a')) (int (nat b')) = (k div int n) * int n"
      unfolding i by simp
    also have "\<dots> < k + 1" using r(1) k by linarith
    finally have "partial_square n (k + 1) ! nat a' ! nat b' \<noteq> 0"
      unfolding cell using siamese_cell_nonzero [OF assms(1)] by simp
    then show ?thesis
      unfolding siamese_step_def Let_def prod.case
        partial_square_update [OF assms] a'_def [symmetric] b'_def [symmetric]
      using next_position_down [OF n e]
      by simp
  qed
qed

lemma partial_square_0: "0 < n \<Longrightarrow> partial_square n 0 = replicate n (replicate n 0)"
proof -
  assume n: "0 < n"
  have "siamese_cell n 0 a b = 0" for a b
    using index_bounds(1) [of "int n" "int a" "int b"] n by (simp add: siamese_cell_def)
  then show ?thesis by (simp add: partial_square_def map_replicate_const)
qed

lemma siamese_start:
  "0 < n \<Longrightarrow> siamese_row n 0 = 0" "0 < n \<Longrightarrow> siamese_col n 0 = n div 2"
  by (simp_all add: siamese_row_def siamese_col_def)

lemma siamese_fold:
  assumes "0 < n" and "k \<le> n * n"
  shows "fold (siamese_step (int n)) [1..int k] (replicate n (replicate n 0), 0, int n div 2) =
           (partial_square n (int k), siamese_row (int n) (int k), siamese_col (int n) (int k))"
  using assms(2)
proof (induction k)
  case 0
  show ?case using assms(1) by (simp add: partial_square_0 siamese_start)
next
  case (Suc k)
  have l: "[1..int (Suc k)] = [1..int k] @ [int k + 1]"
    using upto_rec2 [of 1 "int k + 1"] by (simp add: add.commute)
  have b: "int k < int n * int n" using Suc.prems by (metis Suc_le_lessD of_nat_less_iff of_nat_mult)
  have "fold (siamese_step (int n)) [1..int (Suc k)]
          (replicate n (replicate n 0), 0, int n div 2) =
        siamese_step (int n) (int k + 1)
          (partial_square n (int k), siamese_row (int n) (int k), siamese_col (int n) (int k))"
    unfolding l using Suc by simp
  also have "\<dots> = (partial_square n (int k + 1), siamese_row (int n) (int k + 1),
                     siamese_col (int n) (int k + 1))"
    using assms(1) _ b by (rule siamese_step_invariant) simp
  finally show ?case by (simp add: add.commute)
qed

lemma generate_custom_square_odd:
  assumes "odd n"
  shows "generate_custom_square n = siamese_square n"
proof -
  have n: "0 < n" using assms by (cases n) simp_all
  have "siamese_cell n (int (n * n)) a b = siamese_index (int n) (int a) (int b) + 1" for a b
    using index_bounds(2) [of "int n" "int a" "int b"] n by (simp add: siamese_cell_def)
  then have "partial_square n (int (n * n)) = siamese_square n"
    by (simp add: partial_square_def siamese_square_def)
  moreover have "n mod 2 = 1" using assms by (simp add: odd_iff_mod_2_eq_one)
  ultimately show ?thesis
    using siamese_fold [OF n order_refl] by (simp add: generate_custom_square_def)
qed

subsection \<open>Sums of residues\<close>

lemma residue_sum_permuted:
  fixes c d :: int
  assumes n: "0 < n" and cancel: "\<And>x. int n dvd c * x \<Longrightarrow> int n dvd x"
  shows "(\<Sum>t = 0..<n. (c * int t + d) mod int n) = (\<Sum>t = 0..<n. int t)"
proof -
  define g where "g t = nat ((c * int t + d) mod int n)" for t
  have g: "int (g t) = (c * int t + d) mod int n" for t
    using n by (simp add: g_def)
  have range: "g ` {0..<n} \<subseteq> {0..<n}"
  proof
    fix y assume "y \<in> g ` {0..<n}"
    then obtain t where "y = g t" by blast
    moreover have "int (g t) < int n" unfolding g using n by simp
    ultimately show "y \<in> {0..<n}" by simp
  qed
  have inj: "inj_on g {0..<n}"
  proof (rule inj_onI)
    fix s t assume s: "s \<in> {0..<n}" and t: "t \<in> {0..<n}" and e: "g s = g t"
    have "(c * int s + d) mod int n = (c * int t + d) mod int n"
      using e g [of s] g [of t] by simp
    then have "int n dvd (c * int s + d) - (c * int t + d)" by (simp add: mod_eq_dvd_iff)
    then have "int n dvd c * (int s - int t)" by (simp add: algebra_simps)
    then have "int n dvd int s - int t" by (rule cancel)
    moreover have "\<bar>int s - int t\<bar> < int n" using s t by auto
    ultimately have "int s - int t = 0" using zdvd_not_zless [of "\<bar>int s - int t\<bar>" "int n"]
      by (cases "int s - int t = 0") auto
    then show "s = t" by simp
  qed
  have image: "g ` {0..<n} = {0..<n}"
    using range inj by (intro endo_inj_surj) simp_all
  have "(\<Sum>t = 0..<n. (c * int t + d) mod int n) = (\<Sum>t = 0..<n. int (g t))"
    by (simp add: g)
  also have "\<dots> = (\<Sum>y \<in> g ` {0..<n}. int y)"
    using inj by (simp add: sum.reindex)
  also have "\<dots> = (\<Sum>t = 0..<n. int t)" by (simp add: image)
  finally show ?thesis .
qed

lemma twice_sum_upto: "2 * (\<Sum>t = 0..<n. int t) = int n * (int n - 1)"
  by (induction n) (simp_all add: algebra_simps)

lemma odd_cancel_2:
  assumes "odd n" and "int n dvd 2 * x"
  shows "int n dvd x"
proof -
  have "coprime (int n) 2" using assms(1) by simp
  then show ?thesis using assms(2) coprime_dvd_mult_right_iff [of "int n" 2 x] by simp
qed

lemma cancel_3:
  assumes "\<not> 3 dvd n" and "int n dvd 3 * x"
  shows "int n dvd x"
proof -
  have "n mod 3 = 1 \<or> n mod 3 = 2" using assms(1) by (simp add: dvd_eq_mod_eq_0) linarith
  then show ?thesis
  proof
    assume "n mod 3 = 1"
    then have "int n = 3 * int (n div 3) + 1" by (metis mult_div_mod_eq of_nat_1 of_nat_add of_nat_mult of_nat_numeral)
    then have "x = int n * x - int (n div 3) * (3 * x)" by (simp add: algebra_simps)
    moreover have "int n dvd int n * x - int (n div 3) * (3 * x)"
      by (rule dvd_diff [OF dvd_triv_left dvd_mult [OF assms(2)]])
    ultimately show ?thesis by simp
  next
    assume "n mod 3 = 2"
    then have "int n = 3 * int (n div 3) + 2" by (metis mult_div_mod_eq of_nat_add of_nat_mult of_nat_numeral)
    then have "x = (int (n div 3) + 1) * (3 * x) - int n * x" by (simp add: algebra_simps)
    moreover have "int n dvd (int (n div 3) + 1) * (3 * x) - int n * x"
      by (rule dvd_diff [OF dvd_mult [OF assms(2)] dvd_triv_left])
    ultimately show ?thesis by simp
  qed
qed

lemma residue_sum_3:
  assumes "3 dvd n"
  shows "2 * (\<Sum>t = 0..<n. (3 * int t + 1) mod int n) = int n * (int n - 1)"
proof -
  obtain c where "n = 3 * c" using assms by (auto elim: dvdE)
  then have c: "n = c + c + c" by simp
  define f where "f t = (3 * int t + 1) mod int n" for t
  have small: "f t = 3 * int t + 1" if "t < c" for t
    using that unfolding f_def c by (intro mod_pos_pos_trivial) simp_all
  have shift1: "f (t + c) = f t" for t
  proof -
    have "3 * int (t + c) + 1 = 3 * int t + 1 + 1 * int n" by (simp add: c)
    then show ?thesis unfolding f_def by (metis mod_mult_self1)
  qed
  have shift2: "f (t + (c + c)) = f t" for t
    using shift1 [of "t + c"] shift1 [of t] by (simp add: add.assoc)
  have "(\<Sum>t = 0..<n. f t) = (\<Sum>t = 0..<c. f t) + (\<Sum>t = c..<c + c. f t) + (\<Sum>t = c + c..<c + c + c. f t)"
    unfolding c by (simp add: sum.atLeastLessThan_concat)
  also have "(\<Sum>t = c..<c + c. f t) = (\<Sum>t = 0..<c. f (t + c))"
    using sum.shift_bounds_nat_ivl [of f 0 c c] by simp
  also have "(\<Sum>t = c + c..<c + c + c. f t) = (\<Sum>t = 0..<c. f (t + (c + c)))"
    using sum.shift_bounds_nat_ivl [of f 0 "c + c" c] by (simp add: add.commute add.left_commute)
  finally have "(\<Sum>t = 0..<n. f t) = 3 * (\<Sum>t = 0..<c. f t)"
    by (simp add: shift1 shift2)
  also have "(\<Sum>t = 0..<c. f t) = (\<Sum>t = 0..<c. 3 * int t + 1)"
    by (intro sum.cong refl) (simp add: small)
  also have "\<dots> = 3 * (\<Sum>t = 0..<c. int t) + int c"
    by (simp add: sum.distrib sum_distrib_left)
  finally have "2 * (\<Sum>t = 0..<n. f t) = 9 * (2 * (\<Sum>t = 0..<c. int t)) + 6 * int c"
    by simp
  also have "\<dots> = int n * (int n - 1)"
    unfolding twice_sum_upto c by (simp add: algebra_simps)
  finally show ?thesis by (simp add: f_def)
qed

subsection \<open>The sums of the lines\<close>

lemma siamese_index_alt:
  "siamese_index n a b =
     ((a + b - n div 2) mod n) * n + (a + 2 * b - 2 * (n div 2)) mod n"
proof -
  have "(2 * ((a + b - n div 2) mod n) - a) mod n = (2 * (a + b - n div 2) - a) mod n"
    by (intro mod_diff_cong mod_mult_cong mod_mod_trivial refl)
  also have "\<dots> = (a + 2 * b - 2 * (n div 2)) mod n" by (simp add: algebra_simps)
  finally show ?thesis by (simp add: siamese_index_def)
qed

lemma line_sum:
  assumes "2 * (\<Sum>t = 0..<n. qf t) = int n * (int n - 1)"
    and "2 * (\<Sum>t = 0..<n. rf t) = int n * (int n - 1)"
  shows "(\<Sum>t = 0..<n. qf t * int n + rf t + 1) = magic_constant n"
proof -
  have "(\<Sum>t = 0..<n. qf t * int n + rf t + 1) =
          (\<Sum>t = 0..<n. qf t) * int n + (\<Sum>t = 0..<n. rf t) + int n"
    by (simp add: sum.distrib sum_distrib_right)
  then have "2 * (\<Sum>t = 0..<n. qf t * int n + rf t + 1) =
          (2 * (\<Sum>t = 0..<n. qf t)) * int n + 2 * (\<Sum>t = 0..<n. rf t) + 2 * int n"
    by (simp add: algebra_simps)
  also have "\<dots> = int n * (int n * int n + 1)"
    unfolding assms by (simp add: algebra_simps)
  finally show ?thesis unfolding magic_constant_def by simp
qed

lemma residues: 
  assumes "0 < n" and "\<And>x. int n dvd c * x \<Longrightarrow> int n dvd x"
  shows "2 * (\<Sum>t = 0..<n. (c * int t + d) mod int n) = int n * (int n - 1)"
  using residue_sum_permuted [OF assms] twice_sum_upto [of n] by simp

lemma half_odd: "odd n \<Longrightarrow> 2 * (int n div 2) = int n - 1"
  by (auto elim!: oddE)

lemma row_sum:
  assumes "odd n"
  shows "(\<Sum>b = 0..<n. siamese_index (int n) a (int b) + 1) = magic_constant n"
proof -
  have n: "0 < n" using assms by (cases n) simp_all
  have q: "2 * (\<Sum>t = 0..<n. (1 * int t + (a - int n div 2)) mod int n) = int n * (int n - 1)"
    using n by (rule residues) simp
  have r: "2 * (\<Sum>t = 0..<n. (2 * int t + (a - 2 * (int n div 2))) mod int n) = int n * (int n - 1)"
    using n by (rule residues) (rule odd_cancel_2 [OF assms])
  have "(\<Sum>b = 0..<n. siamese_index (int n) a (int b) + 1) =
        (\<Sum>t = 0..<n. ((1 * int t + (a - int n div 2)) mod int n) * int n +
           (2 * int t + (a - 2 * (int n div 2))) mod int n + 1)"
    by (intro sum.cong refl) (simp add: siamese_index_alt algebra_simps)
  also have "\<dots> = magic_constant n" using q r by (rule line_sum)
  finally show ?thesis .
qed

lemma column_sum:
  assumes "odd n"
  shows "(\<Sum>a = 0..<n. siamese_index (int n) (int a) b + 1) = magic_constant n"
proof -
  have n: "0 < n" using assms by (cases n) simp_all
  have q: "2 * (\<Sum>t = 0..<n. (1 * int t + (b - int n div 2)) mod int n) = int n * (int n - 1)"
    using n by (rule residues) simp
  have r: "2 * (\<Sum>t = 0..<n. (1 * int t + (2 * b - 2 * (int n div 2))) mod int n) = int n * (int n - 1)"
    using n by (rule residues) simp
  have "(\<Sum>a = 0..<n. siamese_index (int n) (int a) b + 1) =
        (\<Sum>t = 0..<n. ((1 * int t + (b - int n div 2)) mod int n) * int n +
           (1 * int t + (2 * b - 2 * (int n div 2))) mod int n + 1)"
    by (intro sum.cong refl) (simp add: siamese_index_alt algebra_simps)
  also have "\<dots> = magic_constant n" using q r by (rule line_sum)
  finally show ?thesis .
qed

lemma main_diagonal_sum:
  assumes "odd n"
  shows "(\<Sum>t = 0..<n. siamese_index (int n) (int t) (int t) + 1) = magic_constant n"
proof -
  have n: "0 < n" using assms by (cases n) simp_all
  have q: "2 * (\<Sum>t = 0..<n. (2 * int t + (- (int n div 2))) mod int n) = int n * (int n - 1)"
    using n by (rule residues) (rule odd_cancel_2 [OF assms])
  have r: "2 * (\<Sum>t = 0..<n. (3 * int t + (- 2 * (int n div 2))) mod int n) = int n * (int n - 1)"
  proof (cases "3 dvd n")
    case True
    have "(3 * int t + (- 2 * (int n div 2))) mod int n = (3 * int t + 1) mod int n" for t
    proof -
      have "3 * int t + (- 2 * (int n div 2)) = 3 * int t + 1 + - 1 * int n"
        using half_odd [OF assms] by simp
      then show ?thesis by (metis mod_mult_self1)
    qed
    then show ?thesis using residue_sum_3 [OF True] by simp
  next
    case False
    show ?thesis using n by (rule residues) (rule cancel_3 [OF False])
  qed
  have "(\<Sum>t = 0..<n. siamese_index (int n) (int t) (int t) + 1) =
        (\<Sum>t = 0..<n. ((2 * int t + (- (int n div 2))) mod int n) * int n +
           (3 * int t + (- 2 * (int n div 2))) mod int n + 1)"
    by (intro sum.cong refl) (simp add: siamese_index_alt algebra_simps)
  also have "\<dots> = magic_constant n" using q r by (rule line_sum)
  finally show ?thesis .
qed

lemma anti_diagonal_sum:
  assumes "odd n"
  shows "(\<Sum>t = 0..<n. siamese_index (int n) (int t) (int (n - 1 - t)) + 1) = magic_constant n"
proof -
  have n: "0 < n" using assms by (cases n) simp_all
  have h: "2 * (int n div 2) = int n - 1" using assms by (rule half_odd)
  have m: "0 \<le> int n div 2" "int n div 2 < int n" using n by simp_all
  have q: "2 * (\<Sum>t = 0..<n. int n div 2) = int n * (int n - 1)"
    using h by simp
  have r: "2 * (\<Sum>t = 0..<n. (- 1 * int t + (int n - 1)) mod int n) = int n * (int n - 1)"
    using n by (rule residues) simp
  have "(\<Sum>t = 0..<n. siamese_index (int n) (int t) (int (n - 1 - t)) + 1) =
        (\<Sum>t = 0..<n. (int n div 2) * int n + (- 1 * int t + (int n - 1)) mod int n + 1)"
  proof (intro sum.cong refl)
    fix t assume "t \<in> {0..<n}"
    then have b: "int (n - 1 - t) = int n - 1 - int t" by auto
    have "int t + (int n - 1 - int t) - int n div 2 = int n div 2" using h by simp
    then have 1: "(int t + (int n - 1 - int t) - int n div 2) mod int n = int n div 2"
      using m by simp
    have "int t + 2 * (int n - 1 - int t) - 2 * (int n div 2) = - 1 * int t + (int n - 1)"
      unfolding h by simp
    then have 2: "(int t + 2 * (int n - 1 - int t) - 2 * (int n div 2)) mod int n =
      (- 1 * int t + (int n - 1)) mod int n" by (simp only:)
    show "siamese_index (int n) (int t) (int (n - 1 - t)) + 1 =
          (int n div 2) * int n + (- 1 * int t + (int n - 1)) mod int n + 1"
      unfolding siamese_index_alt b 1 2 by (rule refl)
  qed
  also have "\<dots> = magic_constant n" using q r by (rule line_sum)
  finally show ?thesis .
qed

lemma siamese_square_nth:
  assumes "a < n" and "b < n"
  shows "siamese_square n ! a ! b = siamese_index (int n) (int a) (int b) + 1"
  using assms by (simp add: siamese_square_def)

lemma sum_list_upt: "sum_list (map f [0..<n]) = (\<Sum>t = 0..<n. f t)"
  by (simp add: interv_sum_list_conv_sum_set_nat)

lemma siamese_all_sums_magic:
  assumes "odd n"
  shows "all_sums_magic n (siamese_square n)"
proof -
  have rows: "list_all (\<lambda>row. sum_list row = magic_constant n) (siamese_square n)"
    unfolding siamese_square_def list_all_iff
    by (auto simp: sum_list_upt row_sum [OF assms])
  have "sum_list (column (siamese_square n) j) = magic_constant n" if "j < n" for j
  proof -
    have "column (siamese_square n) j =
            map (\<lambda>a. siamese_index (int n) (int a) (int j) + 1) [0..<n]"
      unfolding column_def siamese_square_def using that by simp
    then show ?thesis by (simp add: sum_list_upt column_sum [OF assms])
  qed
  then have cols: "list_all (\<lambda>j. sum_list (column (siamese_square n) j) = magic_constant n) [0..<n]"
    by (simp add: list_all_iff)
  have "main_diagonal n (siamese_square n) =
          map (\<lambda>t. siamese_index (int n) (int t) (int t) + 1) [0..<n]"
    unfolding main_diagonal_def by (rule map_cong) (simp_all add: siamese_square_nth)
  then have main: "sum_list (main_diagonal n (siamese_square n)) = magic_constant n"
    by (simp only: sum_list_upt main_diagonal_sum [OF assms])
  have "anti_diagonal n (siamese_square n) =
          map (\<lambda>t. siamese_index (int n) (int t) (int (n - 1 - t)) + 1) [0..<n]"
    unfolding anti_diagonal_def by (rule map_cong) (simp_all add: siamese_square_nth)
  then have anti: "sum_list (anti_diagonal n (siamese_square n)) = magic_constant n"
    by (simp only: sum_list_upt anti_diagonal_sum [OF assms])
  show ?thesis unfolding all_sums_magic_def using rows cols main anti by blast
qed

lemma concat_as_product:
  "concat (map (\<lambda>a. map (f a) ys) xs) = map (\<lambda>(a, b). f a b) (List.product xs ys)"
  by (induction xs) (simp_all add: comp_def)

lemma siamese_is_square:
  assumes "0 < n"
  shows "is_square_of n (siamese_square n)"
proof -
  define g where "g = (\<lambda>(a, b). siamese_index (int n) (int a) (int b) + 1)"
  define cells where "cells = List.product [0..<n] [0..<n]"
  have n: "0 < int n" using assms by simp
  have c: "concat (siamese_square n) = map g cells"
    unfolding siamese_square_def g_def cells_def by (rule concat_as_product)
  have inj: "inj_on g (set cells)"
  proof (rule inj_onI)
    fix x y assume x: "x \<in> set cells" and y: "y \<in> set cells" and e: "g x = g y"
    obtain a b where xab: "x = (a, b)" by (cases x)
    obtain a' b' where yab: "y = (a', b')" by (cases y)
    have r: "a < n" "b < n" "a' < n" "b' < n" using x y by (simp_all add: xab yab cells_def)
    have i: "siamese_index (int n) (int a) (int b) = siamese_index (int n) (int a') (int b')"
      using e by (simp add: g_def xab yab)
    have "int a = siamese_row (int n) (siamese_index (int n) (int a) (int b))"
      using r n by (simp add: position_of_index)
    also have "\<dots> = int a'" unfolding i using r n by (simp add: position_of_index)
    finally have 1: "a = a'" by simp
    have "int b = siamese_col (int n) (siamese_index (int n) (int a) (int b))"
      using r n by (simp add: position_of_index)
    also have "\<dots> = int b'" unfolding i using r n by (simp add: position_of_index)
    finally have 2: "b = b'" by simp
    show "x = y" using 1 2 by (simp add: xab yab)
  qed
  have d: "distinct (concat (siamese_square n))"
    unfolding c using inj by (simp add: distinct_map) (simp add: cells_def distinct_product)
  have sub: "set (concat (siamese_square n)) \<subseteq> {1..int (n * n)}"
  proof
    fix v assume "v \<in> set (concat (siamese_square n))"
    then obtain a b where "v = siamese_index (int n) (int a) (int b) + 1"
      unfolding c g_def by auto
    then show "v \<in> {1..int (n * n)}"
      using index_bounds [OF n, of "int a" "int b"] by simp
  qed
  have "length (concat (siamese_square n)) = n * n"
    unfolding c by (simp add: cells_def)
  moreover have "card (set (concat (siamese_square n))) = length (concat (siamese_square n))"
    using d by (rule distinct_card)
  moreover have "card {1..int (n * n)} = n * n" by (simp del: of_nat_mult)
  ultimately have "card (set (concat (siamese_square n))) = card {1..int (n * n)}"
    by (simp only:)
  then have s: "set (concat (siamese_square n)) = {1..int (n * n)}"
    using sub by (intro card_subset_eq) simp_all
  have "sort (concat (siamese_square n)) = [1..int (n * n)]"
  proof (rule sorted_distinct_set_unique)
    show "sorted (sort (concat (siamese_square n)))" by (rule sorted_sort)
    show "distinct (sort (concat (siamese_square n)))" using d by (simp only: distinct_sort)
    show "sorted [1..int (n * n)]" by (rule sorted_upto)
    show "distinct [1..int (n * n)]" by (rule distinct_upto)
    show "set (sort (concat (siamese_square n))) = set [1..int (n * n)]"
      using s by (simp only: set_sort set_upto)
  qed
  moreover have "length (siamese_square n) = n"
    and "list_all (\<lambda>row. length row = n) (siamese_square n)"
    by (simp_all add: siamese_square_def list_all_iff)
  ultimately show ?thesis unfolding is_square_of_def by blast
qed

lemma top_middle_is_one:
  assumes "odd n"
  shows "generate_custom_square n ! 0 ! (n div 2) = 1"
proof -
  have n: "0 < n" using assms by (cases n) simp_all
  then have m: "n div 2 < n" by simp
  have "siamese_index (int n) (siamese_row (int n) 0) (siamese_col (int n) 0) = 0"
    using n by (intro index_of_position) simp_all
  then have "siamese_index (int n) (int 0) (int (n div 2)) = 0"
    using n by (simp add: siamese_start zdiv_int)
  then show ?thesis
    unfolding generate_custom_square_odd [OF assms] using siamese_square_nth [OF n m] by simp
qed

lemma generate_custom_square_3: "generate_custom_square 3 = [[8, 1, 6], [3, 5, 7], [4, 9, 2]]"
  by code_simp

lemma generate_custom_square_5:
  "generate_custom_square 5 =
     [[17, 24, 1, 8, 15],
      [23, 5, 7, 14, 16],
      [4, 6, 13, 20, 22],
      [10, 12, 19, 21, 3],
      [11, 18, 25, 2, 9]]"
  by code_simp

text \<open>
  Claim C7. For every odd \<open>N \<ge> 3\<close>, \<open>generate_custom_square N\<close> has 1 in its top-middle
  cell and is an \<open>N \<times> N\<close> square that holds each of \<open>1..N\<^sup>2\<close> exactly once and in which
  every row, every column and both main diagonals sum to \<open>N (N\<^sup>2 + 1) / 2\<close>. For
  \<open>N = 3\<close> it is the Saturn (Lo Shu) square with its rows in reverse order; the magic
  constant is 15 for \<open>N = 3\<close>, 65 for \<open>N = 5\<close> and 175 for \<open>N = 7\<close>.
\<close>

theorem generate_custom_square_magic:
  assumes "odd n" and "3 \<le> n"
  shows "is_magic_square n (generate_custom_square n) \<and>
         generate_custom_square n ! 0 ! (n div 2) = 1 \<and>
         generate_custom_square 3 = rev generate_saturn_square \<and>
         magic_constant 3 = 15 \<and> magic_constant 5 = 65 \<and> magic_constant 7 = 175"
proof -
  have "0 < n" using assms(2) by simp
  then have "is_magic_square n (generate_custom_square n)"
    unfolding generate_custom_square_odd [OF assms(1)] is_magic_square_def
    using siamese_is_square siamese_all_sums_magic [OF assms(1)] by blast
  moreover have "generate_custom_square 3 = rev generate_saturn_square"
    by (simp add: generate_custom_square_3 generate_saturn_square_def)
  moreover have "magic_constant 3 = 15 \<and> magic_constant 5 = 65 \<and> magic_constant 7 = 175"
    by (simp add: magic_constant_def)
  ultimately show ?thesis using top_middle_is_one [OF assms(1)] by blast
qed

theorem generate_custom_square_magic_witness:
  "odd (5::nat) \<and> (3::nat) \<le> 5 \<and>
   is_magic_square 5
     [[17, 24, 1, 8, 15],
      [23, 5, 7, 14, 16],
      [4, 6, 13, 20, 22],
      [10, 12, 19, 21, 3],
      [11, 18, 25, 2, 9]]"
  using generate_custom_square_magic [of 5] by (simp add: generate_custom_square_5)

end
